theory Spec2Isabelle
  imports
    Complex_Main
    "HOL-Library.Word"
    "HOL-Library.AList"
    "HOL-Library.Multiset"
    "HOL-Library.Sublist"
begin

section \<open>The chunk pipeline of \<^verbatim>\<open>split.go\<close>\<close>

text \<open>
  The file \<^verbatim>\<open>split.go\<close> splits an input file into chunks of a fixed size
  (\<^verbatim>\<open>readChunks\<close>), hands every chunk to one of \<^verbatim>\<open>num\<close> worker goroutines that
  apply a caller-supplied function (\<^verbatim>\<open>ProcessFile\<close>), collects the results in a map keyed
  by chunk index and writes them to the output file in index order (\<^verbatim>\<open>writeResults\<close>).
  \<^verbatim>\<open>ReadValue\<close> reads one fixed-size record by index.

  Go strings and byte slices are byte sequences; they are modelled as \<^typ>\<open>string\<close>
  (lists of 8-bit characters). The chunk counter \<^verbatim>\<open>i\<close> and the map keys have Go type
  \<^verbatim>\<open>int\<close>; the counter never exceeds the number of bytes of the file, so it is
  modelled as an unbounded \<^typ>\<open>int\<close>. The arguments of \<^verbatim>\<open>ReadValue\<close> are
  \<^verbatim>\<open>int64\<close> and their product can wrap around, so they are \<^typ>\<open>64 word\<close>; the
  conversion \<^verbatim>\<open>int(size)\<close> is the identity on a 64-bit platform.
  Allocations succeed whatever their size, and messages printed on the console are not
  part of the model.

  Names follow the source. Where Isabelle reserves a name it is shortened: the field
  \<^verbatim>\<open>value\<close> of a shard is \<open>val\<close>, the parameter \<^verbatim>\<open>size\<close> is \<open>sz\<close>, the parameter
  \<^verbatim>\<open>index\<close> of \<^verbatim>\<open>ReadValue\<close> is \<open>idx\<close>, and the variable \<^verbatim>\<open>file\<close> of the collector is
  \<open>handle\<close>.
\<close>

subsection \<open>Chunks and input files\<close>

text \<open>\<^verbatim>\<open>type shard struct { index int; value string }\<close>\<close>

record shard =
  index :: int
  val :: string

text \<open>
  An input path: whether \<^verbatim>\<open>os.Open\<close> succeeds, the bytes of the file, and an optional
  device fault \<open>Some k\<close>: only the first \<open>k\<close> bytes can be read, every read beyond them
  returns an I/O error.
\<close>

record in_file =
  can_open :: bool
  content :: string
  read_fault :: "nat option"

text \<open>The error values \<^verbatim>\<open>io.ReadFull\<close> can return.\<close>

datatype io_err = EOF | ErrUnexpectedEOF | IOError

text \<open>
  The state of \<^verbatim>\<open>bufio.NewReader(file)\<close>: the bytes not yet consumed and the number
  of bytes the device still delivers before it fails.
\<close>

record reader =
  rest :: string
  fault_in :: "nat option"

definition NewReader :: "in_file \<Rightarrow> reader" where
  "NewReader f = \<lparr>rest = content f, fault_in = read_fault f\<rparr>"

definition deliverable :: "reader \<Rightarrow> nat" where
  "deliverable r = (case fault_in r of None \<Rightarrow> length (rest r)
                                     | Some k \<Rightarrow> min k (length (rest r)))"

text \<open>
  \<^verbatim>\<open>io.ReadFull(reader, buffer)\<close> reads until the buffer is full, the file ends or the
  device fails. It returns the number \<open>n\<close> of bytes read and an error: none when the
  buffer was filled (in particular for an empty buffer, which reads nothing),
  \<^verbatim>\<open>io.EOF\<close> when the file ended before any byte, \<^verbatim>\<open>io.ErrUnexpectedEOF\<close> when it ended
  after some bytes, and the device's error otherwise. The first \<open>n\<close> bytes of the buffer
  are overwritten.
\<close>

definition ReadFull :: "reader \<Rightarrow> string \<Rightarrow> (nat \<times> io_err option) \<times> string \<times> reader" where
  "ReadFull r buf =
     (let limit = deliverable r;
          got = take (min (length buf) limit) (rest r);
          n = length got;
          err = (if n = length buf then None
                 else if limit < length (rest r) then Some IOError
                 else if n = 0 then Some EOF
                 else Some ErrUnexpectedEOF)
      in ((n, err), got @ drop n buf,
          \<lparr>rest = drop n (rest r), fault_in = map_option (\<lambda>k. k - n) (fault_in r)\<rparr>))"

subsection \<open>Producer\<close>

text \<open>
  The loop of \<^verbatim>\<open>readChunks\<close> (lines 38 to 49):
  \<^verbatim>\<open>for i := 0; ; i++ {
    n, err := io.ReadFull(reader, buffer)
    if err != nil && err != io.ErrUnexpectedEOF {
      if err != io.EOF { fmt.Println("Error reading file:", err) }
      break
    } else { output <- shard{i, string(buffer[0:n])} }
  }\<close>
  The argument \<open>out\<close> is the sequence of shards sent on the channel so far. The result
  is that sequence at the \<^verbatim>\<open>break\<close> and whether the loop ended on an error other than
  \<^verbatim>\<open>io.EOF\<close>. The loop has no other exit, so it is a partial function: \<open>None\<close> is a
  loop that never ends.
\<close>

partial_function (option) readLoop ::
  "reader \<Rightarrow> string \<Rightarrow> int \<Rightarrow> shard list \<Rightarrow> (shard list \<times> bool) option" where
  "readLoop r buffer i out =
     (case ReadFull r buffer of ((n, err), buffer', r') \<Rightarrow>
        if err \<noteq> None \<and> err \<noteq> Some ErrUnexpectedEOF
        then Some (out, err \<noteq> Some EOF)
        else readLoop r' buffer' (i + 1) (out @ [\<lparr>index = i, val = take n buffer'\<rparr>]))"

declare readLoop.simps [code]

text \<open>
  How \<^verbatim>\<open>readChunks\<close> ends: at the end of the file, on a failed \<^verbatim>\<open>os.Open\<close>, on a read
  error, or in the panic of \<^verbatim>\<open>make([]byte, size)\<close> for a negative size.
\<close>

datatype producer_exit = EndOfFile | OpenFailed | ReadFailed | MakeSliceLenOutOfRange

text \<open>
  What \<^verbatim>\<open>readChunks\<close> leaves behind: the shards sent on \<^verbatim>\<open>output\<close>, in order, whether
  the channel has been closed, and how the function ended.
\<close>

record producer =
  emitted :: "shard list"
  closed :: bool
  exit_status :: producer_exit

text \<open>
  \<^verbatim>\<open>readChunks(filename, output, size)\<close>, lines 20 to 50. The deferred
  \<^verbatim>\<open>close(output)\<close> of line 22 runs on every way out of the function, also while
  panicking. The buffer of line 37 holds \<open>size\<close> zero bytes.
\<close>

definition readChunks :: "in_file \<Rightarrow> int \<Rightarrow> producer option" where
  "readChunks f sz =
     (if \<not> can_open f
      then Some \<lparr>emitted = [], closed = True, exit_status = OpenFailed\<rparr>
      else if sz < 0
      then Some \<lparr>emitted = [], closed = True, exit_status = MakeSliceLenOutOfRange\<rparr>
      else map_option
             (\<lambda>(out, bad). \<lparr>emitted = out, closed = True,
                            exit_status = (if bad then ReadFailed else EndOfFile)\<rparr>)
             (readLoop (NewReader f) (replicate (nat sz) (CHR 0x00)) 0 []))"

subsection \<open>Collector\<close>

text \<open>
  The output path: whether \<^verbatim>\<open>os.OpenFile\<close> fails, the content of the file before the
  run (\<open>None\<close> when it does not exist), for every call of \<^verbatim>\<open>WriteString\<close>, counted
  from 0, whether it fails (\<open>Some n\<close>: the call returns an error after at most \<open>n\<close>
  bytes reached the file), and whether \<^verbatim>\<open>Close\<close> fails.
\<close>

record out_env =
  open_fails :: bool
  existing :: "string option"
  write_fault :: "nat \<Rightarrow> nat option"
  close_fails :: bool

text \<open>An open file: its bytes and the offset of the next write.\<close>

record wfile =
  data :: string
  offset :: nat

text \<open>
  \<^verbatim>\<open>os.OpenFile(filename, os.O_WRONLY|os.O_CREATE, 0644)\<close>, line 63: an existing file
  is opened as it is, with the offset at 0; a missing file is created empty. The flags
  hold neither \<^verbatim>\<open>O_TRUNC\<close> nor \<^verbatim>\<open>O_APPEND\<close>.
\<close>

definition OpenFile :: "out_env \<Rightarrow> wfile option" where
  "OpenFile env =
     (if open_fails env then None
      else Some \<lparr>data = (case existing env of None \<Rightarrow> [] | Some d \<Rightarrow> d), offset = 0\<rparr>)"

text \<open>
  Writing bytes at the offset of the file overwrites what is there, extends the file when
  the bytes reach beyond its end (after a gap of zero bytes when the offset lies beyond
  the end), and advances the offset.
\<close>

definition put_bytes :: "string \<Rightarrow> wfile \<Rightarrow> wfile" where
  "put_bytes b f =
     \<lparr>data = take (offset f) (data f) @ replicate (offset f - length (data f)) (CHR 0x00)
               @ b @ drop (offset f + length b) (data f),
      offset = offset f + length b\<rparr>"

text \<open>\<^verbatim>\<open>file.WriteString(s)\<close>: the error flag and the file afterwards.\<close>

definition WriteString :: "wfile \<Rightarrow> nat option \<Rightarrow> string \<Rightarrow> bool \<times> wfile" where
  "WriteString f fault s =
     (case fault of None \<Rightarrow> (False, put_bytes s f)
                  | Some n \<Rightarrow> (True, put_bytes (take n s) f))"

text \<open>
  Lines 58 to 61: \<^verbatim>\<open>result := make(map[int]string)\<close> and
  \<^verbatim>\<open>for ct := range results { result[ct.index] = ct.value }\<close>. The Go map is an
  association list with one entry per key; \<^verbatim>\<open>len(result)\<close> is its length. A later
  result with the same index replaces the earlier one.
\<close>

definition collect :: "shard list \<Rightarrow> (int \<times> string) list" where
  "collect results = foldl (\<lambda>result ct. AList.update (index ct) (val ct) result) [] results"

text \<open>\<^verbatim>\<open>result[i]\<close>: a Go map returns the zero value, the empty string, for a missing key.\<close>

definition lookup :: "(int \<times> string) list \<Rightarrow> int \<Rightarrow> string" where
  "lookup result i = (case map_of result i of None \<Rightarrow> [] | Some v \<Rightarrow> v)"

text \<open>
  The state of the collector while it writes: the open file, the arguments of the calls
  of \<^verbatim>\<open>WriteString\<close> made so far, and the values sent on \<^verbatim>\<open>done\<close> so far.
\<close>

record writer =
  handle :: wfile
  writes :: "string list"
  done_sent :: "bool list"

text \<open>
  Lines 77 to 84:
  \<^verbatim>\<open>for i := 0; i < len(result); i++ {
    _, err = file.WriteString(result[i])
    if err != nil { fmt.Println(err); done <- false; break }
  }\<close>
\<close>

function writeLoop ::
  "(int \<times> string) list \<Rightarrow> (nat \<Rightarrow> nat option) \<Rightarrow> nat \<Rightarrow> writer \<Rightarrow> writer" where
  "writeLoop result faults i st =
     (if i < length result
      then (case WriteString (handle st) (faults i) (lookup result (int i)) of
              (err, f') \<Rightarrow>
                (let st' = st\<lparr>handle := f', writes := writes st @ [lookup result (int i)]\<rparr>
                 in if err then st'\<lparr>done_sent := done_sent st' @ [False]\<rparr>
                    else writeLoop result faults (i + 1) st'))
      else st)"
  by pat_completeness auto
termination
  by (relation "measure (\<lambda>(result, faults, i, st). length result - i)") auto

declare writeLoop.simps [simp del]

text \<open>
  What \<^verbatim>\<open>writeResults\<close> leaves behind: the values it sends on \<^verbatim>\<open>done\<close>, in program
  order and with every send taken by a receiver; the arguments of its calls of
  \<^verbatim>\<open>WriteString\<close>, in order; and the content of the output path afterwards (\<open>None\<close>
  when there is no file).
\<close>

record collector =
  signals :: "bool list"
  calls :: "string list"
  disk :: "string option"

text \<open>
  \<^verbatim>\<open>writeResults(results, filename, done)\<close>, lines 56 to 87; \<open>results\<close> is the sequence
  of shards received from the channel until it is closed. After the loop, line 86 sends
  \<^verbatim>\<open>true\<close> whether or not the loop ended in \<^verbatim>\<open>break\<close>; the deferred function of
  lines 70 to 75 then closes the file and sends \<^verbatim>\<open>false\<close> when closing fails.
\<close>

definition writeResults :: "shard list \<Rightarrow> out_env \<Rightarrow> collector" where
  "writeResults results env =
     (let result = collect results
      in case OpenFile env of
           None \<Rightarrow> \<lparr>signals = [False], calls = [], disk = existing env\<rparr>
         | Some f \<Rightarrow>
             (let st = writeLoop result (write_fault env) 0
                         \<lparr>handle = f, writes = [], done_sent = []\<rparr>;
                  st = st\<lparr>done_sent := done_sent st @ [True]\<rparr>;
                  st = (if close_fails env then st\<lparr>done_sent := done_sent st @ [False]\<rparr>
                        else st)
              in \<lparr>signals = done_sent st, calls = writes st, disk = Some (data (handle st))\<rparr>))"

text \<open>
  \<^verbatim>\<open>ProcessFile\<close> receives from \<^verbatim>\<open>done\<close> once (line 122): the outcome its caller sees
  is the first value sent.
\<close>

definition reported :: "collector \<Rightarrow> bool option" where
  "reported r = (case signals r of [] \<Rightarrow> None | b # _ \<Rightarrow> Some b)"

subsection \<open>Orchestrator\<close>

text \<open>
  \<^verbatim>\<open>ProcessFile(inputFile, outputFile, process, num, size)\<close>, lines 96 to 125, as the
  relation between its arguments and what the collector leaves behind in a run that
  returns. With \<open>num > 0\<close> workers every shard the producer emits is taken by one worker
  and its result sent on \<^verbatim>\<open>resultChannel\<close>; the order in which the results reach the
  collector depends on the scheduler, so \<open>results\<close> is any arrangement of the processed
  shards. With \<open>num = 0\<close> no worker exists, \<^verbatim>\<open>wg.Wait()\<close> returns at once and the
  collector receives nothing. A negative \<open>num\<close> panics in \<^verbatim>\<open>make(chan shard, num)\<close>, and a
  producer that panics or never ends gives no run that returns.
\<close>

inductive ProcessFile ::
  "in_file \<Rightarrow> out_env \<Rightarrow> (shard \<Rightarrow> shard) \<Rightarrow> int \<Rightarrow> int \<Rightarrow> collector \<Rightarrow> bool"
  for inputFile outputFile process num sz where
  workers:
    "0 < num \<Longrightarrow> readChunks inputFile sz = Some p \<Longrightarrow>
     exit_status p \<noteq> MakeSliceLenOutOfRange \<Longrightarrow>
     mset results = mset (map process (emitted p)) \<Longrightarrow>
     ProcessFile inputFile outputFile process num sz (writeResults results outputFile)"
| no_workers:
    "num = 0 \<Longrightarrow> \<not> (can_open inputFile \<and> sz < 0) \<Longrightarrow>
     ProcessFile inputFile outputFile process num sz (writeResults [] outputFile)"

subsection \<open>Random access\<close>

text \<open>The bytes of a file that the device delivers.\<close>

definition readable :: "in_file \<Rightarrow> string" where
  "readable f = (case read_fault f of None \<Rightarrow> content f | Some k \<Rightarrow> take k (content f))"

text \<open>
  \<^verbatim>\<open>file.ReadAt(b, off)\<close>: the number of bytes read and the buffer afterwards. A negative
  offset is an error and reads nothing.
\<close>

definition ReadAt :: "in_file \<Rightarrow> string \<Rightarrow> int \<Rightarrow> nat \<times> string" where
  "ReadAt f b off =
     (if off < 0 then (0, b)
      else (let got = take (length b) (drop (nat off) (readable f))
            in (length got, got @ drop (length got) b)))"

datatype go_panic = MakeSlicePanic

text \<open>
  \<^verbatim>\<open>ReadValue(filePath, index, size)\<close>, lines 132 to 153. The result \<open>Inr None\<close> is the
  \<^verbatim>\<open>nil\<close> slice. The offset \<^verbatim>\<open>index*size\<close> is an \<^verbatim>\<open>int64\<close> product and wraps around.
\<close>

definition ReadValue :: "in_file \<Rightarrow> 64 word \<Rightarrow> 64 word \<Rightarrow> go_panic + string option" where
  "ReadValue f idx sz =
     (if \<not> can_open f then Inr None
      else if sint sz < 0 then Inl MakeSlicePanic
      else (case ReadAt f (replicate (nat (sint sz)) (CHR 0x00)) (sint (idx * sz)) of
              (n, buffer) \<Rightarrow> if int n < sint sz then Inr None else Inr (Some buffer)))"

subsection \<open>Reference notions\<close>

text \<open>
  The \<open>j\<close>-th block of \<open>c\<close> bytes of a byte sequence, the shards numbered from \<open>i\<close>
  that carry the first \<open>m\<close> blocks, and the number of blocks a reader delivers in full
  before a device fault, or in full or in part before the end of the file.
\<close>

definition chunk_at :: "nat \<Rightarrow> string \<Rightarrow> nat \<Rightarrow> string" where
  "chunk_at c s j = take c (drop (j * c) s)"

definition chunks_from :: "int \<Rightarrow> nat \<Rightarrow> string \<Rightarrow> nat \<Rightarrow> shard list" where
  "chunks_from i c s m = map (\<lambda>j. \<lparr>index = i + int j, val = chunk_at c s j\<rparr>) [0..<m]"

definition emitted_count :: "reader \<Rightarrow> nat \<Rightarrow> nat" where
  "emitted_count r c =
     (if deliverable r < length (rest r) then deliverable r div c
      else (length (rest r) + c - 1) div c)"

text \<open>
  The state of a file opened at offset 0 over the content \<open>old\<close> after the bytes \<open>w\<close>
  have been written to it.
\<close>

definition written_over :: "string \<Rightarrow> string \<Rightarrow> wfile" where
  "written_over w old = \<lparr>data = w @ drop (length w) old, offset = length w\<rparr>"

text \<open>The bytes at the output path before the run; none when the file does not exist.\<close>

definition old_content :: "out_env \<Rightarrow> string" where
  "old_content env = (case existing env of None \<Rightarrow> [] | Some d \<Rightarrow> d)"

section \<open>The producer\<close>

subsection \<open>Arithmetic of block counts\<close>

lemma ceil_div_one:
  fixes n c :: nat
  assumes "0 < n" "n < c"
  shows "(n + c - 1) div c = 1"
proof -
  obtain k where k: "n = Suc k" using assms(1) by (cases n) auto
  have "(n + c - 1) div c = (c + k) div c" using k by (simp add: add.commute)
  also have "\<dots> = 1 + k div c" using assms(2) by (simp add: div_add_self1)
  also have "\<dots> = 1" using assms(2) k by simp
  finally show ?thesis .
qed

lemma ceil_div_cases:
  fixes s c :: nat
  assumes "0 < c"
  shows "(s + c - 1) div c = (if s mod c = 0 then s div c else s div c + 1)"
proof (cases "s mod c = 0")
  case True
  then have "s + c - 1 = (c - 1) + (s div c) * c" using assms by auto
  then have "(s + c - 1) div c = (c - 1) div c + s div c"
    using assms by (simp only: div_mult_self1)
  then show ?thesis using True assms by simp
next
  case False
  have "(s div c + 1) * c = s div c * c + c" by simp
  moreover have "s = s div c * c + s mod c" by simp
  ultimately have "s + c - 1 = (s mod c - 1) + (s div c + 1) * c"
    using False by linarith
  then have "(s + c - 1) div c = (s mod c - 1) div c + (s div c + 1)"
    using assms by (simp only: div_mult_self1)
  moreover have "s mod c - 1 < c" using assms by (simp add: less_imp_diff_less)
  ultimately show ?thesis using False by simp
qed

lemma ceil_div_covers:
  fixes s c :: nat
  assumes "0 < c"
  shows "s \<le> (s + c - 1) div c * c"
proof -
  have eq: "s = s div c * c + s mod c" by simp
  show ?thesis
  proof (cases "s mod c = 0")
    case True
    then have "(s + c - 1) div c = s div c" using ceil_div_cases [OF assms, of s] by simp
    then show ?thesis using eq True by simp
  next
    case False
    then have m: "(s + c - 1) div c = s div c + 1" using ceil_div_cases [OF assms, of s] by simp
    have "s \<le> s div c * c + c" using eq assms mod_less_divisor [OF assms, of s] by linarith
    then show ?thesis unfolding m by simp
  qed
qed

lemma ceil_div_tight:
  fixes s c :: nat
  assumes "0 < c" "0 < s"
  shows "((s + c - 1) div c - 1) * c < s"
proof -
  have eq: "s = s div c * c + s mod c" by simp
  show ?thesis
  proof (cases "s mod c = 0")
    case True
    then have m: "(s + c - 1) div c = s div c" using ceil_div_cases [OF assms(1), of s] by simp
    have "s div c * c = s" using eq True by simp
    moreover have "0 < s div c" using calculation assms(2) by (cases "s div c = 0") auto
    ultimately have "(s div c - 1) * c < s" using assms by (simp add: diff_mult_distrib)
    then show ?thesis unfolding m .
  next
    case False
    then have m: "(s + c - 1) div c = s div c + 1" using ceil_div_cases [OF assms(1), of s] by simp
    have "s div c * c < s" using eq False by linarith
    then show ?thesis unfolding m by simp
  qed
qed

lemma ceil_div_real:
  fixes s c :: nat
  assumes "0 < c"
  shows "\<lceil>real s / real c\<rceil> = int ((s + c - 1) div c)"
proof (cases "s = 0")
  case True
  then show ?thesis using assms by simp
next
  case False
  define m where "m = (s + c - 1) div c"
  have up: "s \<le> m * c" unfolding m_def by (rule ceil_div_covers [OF assms])
  have lo: "(m - 1) * c < s" unfolding m_def using False by (intro ceil_div_tight assms) simp
  have m: "0 < m" using up False by (cases "m = 0") auto
  have "real s \<le> real m * real c" using up by (metis of_nat_le_iff of_nat_mult)
  then have "real s / real c \<le> real m" using assms by (simp add: pos_divide_le_eq)
  moreover have "real m - 1 < real s / real c"
  proof -
    have "real (m - 1) * real c < real s" using lo by (metis of_nat_less_iff of_nat_mult)
    then have "real (m - 1) < real s / real c" using assms by (simp add: pos_less_divide_eq)
    then show ?thesis using m by (simp add: of_nat_diff)
  qed
  ultimately have "\<lceil>real s / real c\<rceil> = int m" by (intro ceiling_unique) simp_all
  then show ?thesis unfolding m_def .
qed

subsection \<open>The read loop\<close>

lemma deliverable_le: "deliverable r \<le> length (rest r)"
  by (simp add: deliverable_def split: option.split)

lemma ReadFull_full:
  assumes "length buf \<le> deliverable r"
  shows "ReadFull r buf =
     ((length buf, None), take (length buf) (rest r),
      \<lparr>rest = drop (length buf) (rest r),
       fault_in = map_option (\<lambda>k. k - length buf) (fault_in r)\<rparr>)"
  using assms deliverable_le [of r] by (simp add: ReadFull_def Let_def min_absorb1)

lemma ReadFull_short:
  assumes "deliverable r < length buf"
  shows "ReadFull r buf =
     ((deliverable r,
       Some (if deliverable r < length (rest r) then IOError
             else if deliverable r = 0 then EOF else ErrUnexpectedEOF)),
      take (deliverable r) (rest r) @ drop (deliverable r) buf,
      \<lparr>rest = drop (deliverable r) (rest r),
       fault_in = map_option (\<lambda>k. k - deliverable r) (fault_in r)\<rparr>)"
  using assms deliverable_le [of r] by (simp add: ReadFull_def Let_def min_absorb2)

lemma deliverable_after:
  "n \<le> deliverable r \<Longrightarrow>
   deliverable \<lparr>rest = drop n (rest r), fault_in = map_option (\<lambda>k. k - n) (fault_in r)\<rparr>
     = deliverable r - n"
  by (auto simp: deliverable_def split: option.splits)

lemma chunks_from_Suc:
  "chunks_from i c s (Suc m) =
     \<lparr>index = i, val = take c s\<rparr> # chunks_from (i + 1) c (drop c s) m"
proof -
  have "[0..<Suc m] = 0 # map Suc [0..<m]"
    by (simp add: upt_conv_Cons map_Suc_upt del: upt_Suc)
  then show ?thesis
    by (simp add: chunks_from_def chunk_at_def comp_def add.commute del: upt_Suc)
qed

lemma readLoop_eq:
  assumes "buffer \<noteq> []"
  shows "readLoop r buffer i out =
     Some (out @ chunks_from i (length buffer) (rest r) (emitted_count r (length buffer)),
           deliverable r < length (rest r))"
  using assms
proof (induction "length (rest r)" arbitrary: r buffer i out rule: less_induct)
  case less
  let ?c = "length buffer"
  have c: "0 < ?c" using less.prems by simp
  have le: "deliverable r \<le> length (rest r)" by (rule deliverable_le)
  show ?case
  proof (cases "?c \<le> deliverable r")
    case True
    let ?r' = "\<lparr>rest = drop ?c (rest r), fault_in = map_option (\<lambda>k. k - ?c) (fault_in r)\<rparr>"
    let ?b' = "take ?c (rest r)"
    have lb: "length ?b' = ?c" using True le by simp
    have nb: "?b' \<noteq> []" using lb c by auto
    have d': "deliverable ?r' = deliverable r - ?c" using True by (rule deliverable_after)
    have "length (rest ?r') = length (rest r) - ?c" by simp
    then have smaller: "length (rest ?r') < length (rest r)" using True le c by linarith
    have IH: "readLoop ?r' ?b' (i + 1) (out @ [\<lparr>index = i, val = ?b'\<rparr>]) =
      Some ((out @ [\<lparr>index = i, val = ?b'\<rparr>]) @
              chunks_from (i + 1) ?c (rest ?r') (emitted_count ?r' ?c),
            deliverable ?r' < length (rest ?r'))"
      using less.hyps [OF smaller nb, of "i + 1" "out @ [\<lparr>index = i, val = ?b'\<rparr>]"] lb by simp
    have bad: "(deliverable ?r' < length (rest ?r')) = (deliverable r < length (rest r))"
      using d' True le by auto
    have cnt: "emitted_count r ?c = Suc (emitted_count ?r' ?c)"
    proof (cases "deliverable r < length (rest r)")
      case T: True
      have "deliverable r div ?c = Suc ((deliverable r - ?c) div ?c)"
        using True c by (simp add: le_div_geq)
      then show ?thesis using T bad d' by (simp add: emitted_count_def)
    next
      case F: False
      have "(length (rest r) + ?c - 1) div ?c = Suc ((length (rest r) - ?c + ?c - 1) div ?c)"
        using True le c by (simp add: le_div_geq)
      then show ?thesis using F bad d' by (simp add: emitted_count_def)
    qed
    have step: "readLoop r buffer i out = readLoop ?r' ?b' (i + 1) (out @ [\<lparr>index = i, val = ?b'\<rparr>])"
      by (subst readLoop.simps) (simp add: ReadFull_full [OF True])
    show ?thesis
      unfolding step IH cnt chunks_from_Suc bad by simp
  next
    case False
    then have short: "deliverable r < ?c" by simp
    show ?thesis
    proof (cases "deliverable r < length (rest r)")
      case True
      have "readLoop r buffer i out = Some (out, True)"
        by (subst readLoop.simps) (simp add: ReadFull_short [OF short] True)
      moreover have "emitted_count r ?c = 0"
        using True short by (simp add: emitted_count_def)
      ultimately show ?thesis using True by (simp add: chunks_from_def)
    next
      case F: False
      then have all: "deliverable r = length (rest r)" using le by simp
      show ?thesis
      proof (cases "rest r = []")
        case True
        have "readLoop r buffer i out = Some (out, False)"
          by (subst readLoop.simps) (simp add: ReadFull_short [OF short] all True)
        moreover have "emitted_count r ?c = 0"
          using True c by (simp add: emitted_count_def deliverable_def split: option.split)
        ultimately show ?thesis using True all by (simp add: chunks_from_def)
      next
        case NE: False
        let ?n = "length (rest r)"
        let ?r' = "\<lparr>rest = [], fault_in = map_option (\<lambda>k. k - ?n) (fault_in r)\<rparr>"
        let ?b' = "rest r @ drop ?n buffer"
        have nb: "?b' \<noteq> []" using NE by simp
        have lb: "length ?b' = ?c" using short all by simp
        have smaller: "length (rest ?r') < length (rest r)" using NE by simp
        have IH: "readLoop ?r' ?b' (i + 1) (out @ [\<lparr>index = i, val = rest r\<rparr>]) =
           Some (out @ [\<lparr>index = i, val = rest r\<rparr>], False)"
          using less.hyps [OF smaller nb, of "i + 1" "out @ [\<lparr>index = i, val = rest r\<rparr>]"] c lb
          by (simp add: emitted_count_def chunks_from_def deliverable_def split: option.split)
        have step: "readLoop r buffer i out =
            readLoop ?r' ?b' (i + 1) (out @ [\<lparr>index = i, val = rest r\<rparr>])"
          by (subst readLoop.simps) (simp add: ReadFull_short [OF short] all NE)
        have "(?n + ?c - 1) div ?c = 1"
          using NE short all by (intro ceil_div_one) simp_all
        then have "emitted_count r ?c = Suc 0"
          using all by (simp add: emitted_count_def)
        moreover have "take ?c (rest r) = rest r" using short all by simp
        ultimately show ?thesis
          unfolding step IH using all by (simp add: chunks_from_def chunk_at_def)
      qed
    qed
  qed
qed

lemma readChunks_eq:
  assumes "0 < sz" "can_open f"
  shows "readChunks f sz =
     Some \<lparr>emitted = chunks_from 0 (nat sz) (content f) (emitted_count (NewReader f) (nat sz)),
           closed = True,
           exit_status = (if deliverable (NewReader f) < length (content f)
                          then ReadFailed else EndOfFile)\<rparr>"
proof -
  let ?b = "replicate (nat sz) (CHR 0x00)"
  have "?b \<noteq> []" using assms(1) by simp
  from readLoop_eq [OF this, of "NewReader f" 0 "[]"] show ?thesis
    using assms by (simp add: readChunks_def NewReader_def)
qed

lemma emitted_count_clean:
  "read_fault f = None \<Longrightarrow>
   emitted_count (NewReader f) c = (length (content f) + c - 1) div c"
  by (simp add: emitted_count_def NewReader_def deliverable_def)

lemma emitted_count_faulty:
  "read_fault f = Some k \<Longrightarrow> k < length (content f) \<Longrightarrow>
   emitted_count (NewReader f) c = k div c"
  by (simp add: emitted_count_def NewReader_def deliverable_def)

lemma length_chunks_from [simp]: "length (chunks_from i c s m) = m"
  by (simp add: chunks_from_def)

lemma nth_chunks_from [simp]:
  "j < m \<Longrightarrow> chunks_from i c s m ! j = \<lparr>index = i + int j, val = chunk_at c s j\<rparr>"
  by (simp add: chunks_from_def)

lemma index_chunks_from: "map index (chunks_from 0 c s m) = map int [0..<m]"
  by (simp add: chunks_from_def comp_def)

lemma take_chunks_from: "n \<le> m \<Longrightarrow> take n (chunks_from i c s m) = chunks_from i c s n"
  by (simp add: chunks_from_def take_map take_upt)

lemma length_chunk_at: "length (chunk_at c s j) = min c (length s - j * c)"
  by (simp add: chunk_at_def min.commute)

lemma ReadFull_empty_buffer: "fst (snd (ReadFull r [])) = [] \<and> fst (ReadFull r []) = (0, None)"
  by (simp add: ReadFull_def)

lemma readLoop_needs_buffer:
  assumes "readLoop r buffer i out = Some y"
  shows "buffer \<noteq> []"
proof (rule readLoop.raw_induct [where P = "\<lambda>r b i out y. b \<noteq> []", OF _ assms])
  fix loop :: "reader \<Rightarrow> string \<Rightarrow> int \<Rightarrow> shard list \<Rightarrow> (shard list \<times> bool) option"
  fix r b i out y
  assume IH: "\<And>r b i out y. loop r b i out = Some y \<Longrightarrow> b \<noteq> []"
  assume body: "(case ReadFull r b of
      ((n, err), buffer', r') \<Rightarrow>
        if err \<noteq> None \<and> err \<noteq> Some ErrUnexpectedEOF
        then Some (out, err \<noteq> Some EOF)
        else loop r' buffer' (i + 1) (out @ [\<lparr>index = i, val = take n buffer'\<rparr>])) = Some y"
  show "b \<noteq> []"
  proof
    assume e: "b = []"
    obtain r' where rf: "ReadFull r [] = ((0, None), [], r')"
      using ReadFull_empty_buffer [of r] by (cases "ReadFull r []") auto
    from body have "loop r' [] (i + 1) (out @ [\<lparr>index = i, val = []\<rparr>]) = Some y"
      unfolding e rf by simp
    from IH [OF this] show False by simp
  qed
qed

lemma readLoop_empty_buffer: "readLoop r [] i out = None"
  using readLoop_needs_buffer [of r "[]" i out] by (cases "readLoop r [] i out") auto

lemma readChunks_closed: "readChunks f sz = Some p \<Longrightarrow> closed p"
  by (auto simp: readChunks_def split: if_splits prod.splits)

lemma readChunks_diverges: "can_open f \<Longrightarrow> readChunks f 0 = None"
  by (simp add: readChunks_def readLoop_empty_buffer)

lemma readChunks_cases:
  assumes "readChunks f sz = Some p"
  shows "emitted p = [] \<or>
         (0 < sz \<and> can_open f \<and>
          emitted p = chunks_from 0 (nat sz) (content f) (emitted_count (NewReader f) (nat sz)))"
proof (cases "can_open f \<and> 0 \<le> sz")
  case False
  then show ?thesis using assms by (auto simp: readChunks_def split: if_splits)
next
  case True
  then have "sz \<noteq> 0" using assms readChunks_diverges [of f] by auto
  then have "0 < sz" using True by simp
  then show ?thesis using assms True by (auto simp: readChunks_eq)
qed

text \<open>
  Claim C2. For a file of \<open>S\<close> bytes that opens and reads without a device fault and a
  chunk size \<open>C > 0\<close>, the producer returns at the end of the file having emitted
  exactly \<open>\<lceil>S / C\<rceil>\<close> chunks. Every chunk but the last carries \<open>C\<close> bytes, and when
  \<open>S > 0\<close> the last chunk carries \<open>S mod C\<close> bytes if that is not zero and \<open>C\<close> bytes
  otherwise: a final partial read is emitted as the last chunk, and the read of zero bytes
  at the end of the file emits nothing.
\<close>

theorem producer_chunk_count:
  assumes "0 < sz" "can_open f" "read_fault f = None"
  shows "\<exists>p. readChunks f sz = Some p \<and> exit_status p = EndOfFile \<and>
           int (length (emitted p)) = \<lceil>real (length (content f)) / real_of_int sz\<rceil> \<and>
           (\<forall>j. Suc j < length (emitted p) \<longrightarrow> length (val (emitted p ! j)) = nat sz) \<and>
           (0 < length (content f) \<longrightarrow>
              emitted p \<noteq> [] \<and>
              length (val (last (emitted p))) =
                (if length (content f) mod nat sz \<noteq> 0 then length (content f) mod nat sz
                 else nat sz))"
proof -
  define c where "c = nat sz"
  define s where "s = length (content f)"
  define m where "m = (s + c - 1) div c"
  define p where "p = \<lparr>emitted = chunks_from 0 c (content f) m, closed = True,
                       exit_status = EndOfFile\<rparr>"
  have c: "0 < c" using assms(1) by (simp add: c_def)
  have e: "emitted_count (NewReader f) c = m"
    unfolding m_def s_def by (rule emitted_count_clean [OF assms(3)])
  have d: "\<not> deliverable (NewReader f) < length (content f)"
    by (simp add: NewReader_def deliverable_def assms(3))
  have run: "readChunks f sz = Some p"
    using readChunks_eq [OF assms(1,2)] e d by (simp add: p_def c_def)
  have cnt: "int (length (emitted p)) = \<lceil>real s / real_of_int sz\<rceil>"
  proof -
    have "real_of_int sz = real c" using assms(1) by (simp add: c_def)
    then show ?thesis using ceil_div_real [OF c, of s] by (simp add: p_def m_def)
  qed
  have full: "length (val (emitted p ! j)) = c" if "Suc j < length (emitted p)" for j
  proof -
    from that have j: "Suc j < m" by (simp add: p_def)
    have "0 < s" using j c by (cases "s = 0") (auto simp: m_def)
    have "(m - 1) * c < s" unfolding m_def by (rule ceil_div_tight [OF c \<open>0 < s\<close>])
    moreover have "Suc j * c \<le> (m - 1) * c" using j by (intro mult_le_mono1) simp
    ultimately have "j * c + c \<le> s" by simp
    then show ?thesis using j by (simp add: p_def length_chunk_at s_def)
  qed
  have lst: "emitted p \<noteq> [] \<and> length (val (last (emitted p))) = (if s mod c \<noteq> 0 then s mod c else c)"
    if pos: "0 < s"
  proof -
    have up: "s \<le> m * c" unfolding m_def by (rule ceil_div_covers [OF c])
    then have m: "0 < m" using pos by (cases "m = 0") auto
    then have ne: "emitted p \<noteq> []" by (auto simp: p_def chunks_from_def)
    have "last (emitted p) = emitted p ! (m - 1)"
      using ne by (simp add: last_conv_nth p_def)
    then have l: "length (val (last (emitted p))) = min c (s - (m - 1) * c)"
      using m by (simp add: p_def length_chunk_at s_def)
    have eq: "s = s div c * c + s mod c" by simp
    show ?thesis
    proof (cases "s mod c = 0")
      case True
      then have md: "m = s div c" unfolding m_def using ceil_div_cases [OF c, of s] by simp
      have sc: "s div c * c = s" using eq True by simp
      have "1 * c \<le> s div c * c" using m md by (intro mult_le_mono1) simp
      then have "c \<le> s" using sc by simp
      then have "s - (m - 1) * c = c" using m md sc by (simp add: diff_mult_distrib)
      then show ?thesis using ne l True by simp
    next
      case False
      then have "m = s div c + 1" unfolding m_def using ceil_div_cases [OF c, of s] by simp
      moreover have "s - s div c * c = s mod c" using eq by linarith
      ultimately have "s - (m - 1) * c = s mod c" by simp
      moreover have "s mod c < c" using c by simp
      ultimately show ?thesis using ne l False by simp
    qed
  qed
  show ?thesis
    using run cnt full lst by (intro exI [of _ p]) (simp add: p_def s_def c_def)
qed

theorem producer_chunk_count_witness:
  "(0::int) < 4 \<and>
   can_open \<lparr>can_open = True, content = ''ABCDEFGHIJ'', read_fault = None\<rparr> \<and>
   read_fault \<lparr>can_open = True, content = ''ABCDEFGHIJ'', read_fault = None\<rparr> = None \<and>
   (\<exists>p. readChunks \<lparr>can_open = True, content = ''ABCDEFGHIJ'', read_fault = None\<rparr> 4 = Some p \<and>
        exit_status p = EndOfFile \<and> length (emitted p) = 3 \<and>
        length (val (emitted p ! 0)) = 4 \<and> length (val (emitted p ! 1)) = 4 \<and>
        length (val (last (emitted p))) = 2)"
  using producer_chunk_count
    [of 4 "\<lparr>can_open = True, content = ''ABCDEFGHIJ'', read_fault = None\<rparr>"]
  by (auto simp: numeral_2_eq_2)

lemma chunks_from_contiguous:
  fixes c :: nat and s :: string and m :: nat
  defines "xs \<equiv> chunks_from 0 c s m"
  shows "map index xs = map int [0..<length xs] \<and>
         distinct (map index xs) \<and>
         sorted_wrt (<) (map index xs) \<and>
         index ` set xs = {0..<int (length xs)} \<and>
         (\<forall>j<length xs. val (xs ! j) = chunk_at c s j)"
proof -
  have l: "length xs = m" by (simp add: xs_def)
  have m: "map index xs = map int [0..<m]" unfolding xs_def by (rule index_chunks_from)
  have d: "distinct (map int [0..<m])" by (simp add: distinct_map inj_on_def)
  have s: "sorted_wrt (<) (map int [0..<m])"
    by (simp add: sorted_wrt_map sorted_wrt_iff_nth_less)
  have "index ` set xs = set (map index xs)" by simp
  also have "\<dots> = int ` {0..<m}" unfolding m by simp
  also have "\<dots> = {0..<int m}" by (simp add: image_int_atLeastLessThan)
  finally have i: "index ` set xs = {0..<int m}" .
  have v: "\<forall>j<m. val (xs ! j) = chunk_at c s j" by (simp add: xs_def)
  show ?thesis unfolding l m using d s i v by (intro conjI) simp_all
qed

text \<open>
  Claim C9. Whenever the producer returns, in particular when the read completes without
  error, the indices of the shards it has emitted are, in the order of emission,
  \<open>0, 1, \<dots>, count - 1\<close>: strictly increasing from 0, without gap or duplicate, and
  the shard with index \<open>j\<close> carries the \<open>j\<close>-th block of the file.
\<close>

theorem producer_indices_contiguous:
  assumes "readChunks f sz = Some p"
  shows "map index (emitted p) = map int [0..<length (emitted p)] \<and>
         distinct (map index (emitted p)) \<and>
         sorted_wrt (<) (map index (emitted p)) \<and>
         index ` set (emitted p) = {0..<int (length (emitted p))} \<and>
         (\<forall>j<length (emitted p). val (emitted p ! j) = chunk_at (nat sz) (content f) j)"
  using readChunks_cases [OF assms]
proof
  assume "emitted p = []"
  then show ?thesis by simp
next
  assume "0 < sz \<and> can_open f \<and>
    emitted p = chunks_from 0 (nat sz) (content f) (emitted_count (NewReader f) (nat sz))"
  then have e: "emitted p =
      chunks_from 0 (nat sz) (content f) (emitted_count (NewReader f) (nat sz))"
    by simp
  show ?thesis unfolding e by (rule chunks_from_contiguous)
qed

lemma run_ABCDEFGHIJ:
  "readChunks \<lparr>can_open = True, content = ''ABCDEFGHIJ'', read_fault = None\<rparr> 4 =
     Some \<lparr>emitted = [\<lparr>index = 0, val = ''ABCD''\<rparr>, \<lparr>index = 1, val = ''EFGH''\<rparr>,
                      \<lparr>index = 2, val = ''IJ''\<rparr>],
           closed = True, exit_status = EndOfFile\<rparr>"
  by code_simp

theorem producer_indices_contiguous_witness:
  "readChunks \<lparr>can_open = True, content = ''ABCDEFGHIJ'', read_fault = None\<rparr> 4 =
     Some \<lparr>emitted = [\<lparr>index = 0, val = ''ABCD''\<rparr>, \<lparr>index = 1, val = ''EFGH''\<rparr>,
                      \<lparr>index = 2, val = ''IJ''\<rparr>],
           closed = True, exit_status = EndOfFile\<rparr> \<and>
   map index [\<lparr>index = 0, val = ''ABCD''\<rparr>, \<lparr>index = 1, val = ''EFGH''\<rparr>,
              \<lparr>index = 2, val = ''IJ''\<rparr>] = map int [0..<3] \<and>
   index ` set [\<lparr>index = 0, val = ''ABCD''\<rparr>, \<lparr>index = 1, val = ''EFGH''\<rparr>,
                \<lparr>index = 2, val = ''IJ''\<rparr>] = {0..<3}"
  using producer_indices_contiguous [OF run_ABCDEFGHIJ] run_ABCDEFGHIJ
  by (simp add: numeral_3_eq_3)

lemma full_chunk_before:
  assumes "Suc j * c \<le> length s"
  shows "length (chunk_at c s j) = c"
  using assms by (simp add: length_chunk_at)

text \<open>
  Claim C7. Every way out of the producer leaves its output channel closed, and for a
  chunk size \<open>C > 0\<close> the producer does return. When the input cannot be opened it has
  emitted nothing. When the device fails after \<open>k\<close> bytes in the middle of the file, it
  has emitted exactly the first \<open>k div C\<close> shards that the same file emits without the
  fault, each with its \<open>C\<close> bytes; without an effective fault it emits all of them.
\<close>

theorem producer_closes_output:
  assumes "0 < sz"
  shows "(\<forall>n p. readChunks f n = Some p \<longrightarrow> closed p) \<and>
    (\<exists>p q. readChunks f sz = Some p \<and> readChunks (f\<lparr>read_fault := None\<rparr>) sz = Some q \<and>
       (\<not> can_open f \<longrightarrow> exit_status p = OpenFailed \<and> emitted p = []) \<and>
       (can_open f \<longrightarrow>
          (\<forall>k. read_fault f = Some k \<and> k < length (content f) \<longrightarrow>
               exit_status p = ReadFailed \<and>
               emitted p = take (k div nat sz) (emitted q) \<and>
               (\<forall>c\<in>set (emitted p). length (val c) = nat sz)) \<and>
          ((read_fault f = None \<or> (\<exists>k. read_fault f = Some k \<and> length (content f) \<le> k)) \<longrightarrow>
               exit_status p = EndOfFile \<and> p = q)))"
proof (intro conjI allI impI)
  fix n p assume "readChunks f n = Some p"
  then show "closed p" by (rule readChunks_closed)
next
  let ?f' = "f\<lparr>read_fault := None\<rparr>"
  define c where "c = nat sz"
  define s where "s = content f"
  have c: "0 < c" using assms by (simp add: c_def)
  show "\<exists>p q. readChunks f sz = Some p \<and> readChunks ?f' sz = Some q \<and>
       (\<not> can_open f \<longrightarrow> exit_status p = OpenFailed \<and> emitted p = []) \<and>
       (can_open f \<longrightarrow>
          (\<forall>k. read_fault f = Some k \<and> k < length (content f) \<longrightarrow>
               exit_status p = ReadFailed \<and>
               emitted p = take (k div nat sz) (emitted q) \<and>
               (\<forall>c\<in>set (emitted p). length (val c) = nat sz)) \<and>
          ((read_fault f = None \<or> (\<exists>k. read_fault f = Some k \<and> length (content f) \<le> k)) \<longrightarrow>
               exit_status p = EndOfFile \<and> p = q))"
  proof (cases "can_open f")
    case False
    then show ?thesis by (simp add: readChunks_def)
  next
    case True
    define m where "m = (length s + c - 1) div c"
    define q where "q = \<lparr>emitted = chunks_from 0 c s m, closed = True, exit_status = EndOfFile\<rparr>"
    define p where "p = \<lparr>emitted = chunks_from 0 c s (emitted_count (NewReader f) c),
        closed = True,
        exit_status = (if deliverable (NewReader f) < length s then ReadFailed else EndOfFile)\<rparr>"
    have runp: "readChunks f sz = Some p"
      using readChunks_eq [OF assms True] by (simp add: p_def c_def s_def)
    have "readChunks ?f' sz =
       Some \<lparr>emitted = chunks_from 0 (nat sz) (content ?f') (emitted_count (NewReader ?f') (nat sz)),
             closed = True,
             exit_status = (if deliverable (NewReader ?f') < length (content ?f')
                            then ReadFailed else EndOfFile)\<rparr>"
      using True by (intro readChunks_eq assms) simp
    moreover have "emitted_count (NewReader ?f') c = m"
      using emitted_count_clean [of ?f' c] by (simp add: m_def s_def)
    moreover have "\<not> deliverable (NewReader ?f') < length (content ?f')"
      by (simp add: NewReader_def deliverable_def)
    ultimately have runq: "readChunks ?f' sz = Some q"
      by (simp add: q_def c_def s_def)
    have faulty: "exit_status p = ReadFailed \<and> emitted p = take (k div c) (emitted q) \<and>
        (\<forall>x\<in>set (emitted p). length (val x) = c)"
      if k: "read_fault f = Some k" "k < length s" for k
    proof -
      have cnt: "emitted_count (NewReader f) c = k div c"
        using k by (intro emitted_count_faulty) (simp_all add: s_def)
      have d: "deliverable (NewReader f) < length s"
        using k by (simp add: NewReader_def deliverable_def s_def)
      have "k div c \<le> length s div c" using k by (intro div_le_mono) simp
      also have "\<dots> \<le> m" unfolding m_def using c by (intro div_le_mono) linarith
      finally have le: "k div c \<le> m" .
      have full: "length (val x) = c" if "x \<in> set (emitted p)" for x
      proof -
        from that obtain j where j: "j < k div c" "x = chunks_from 0 c s (k div c) ! j"
          by (auto simp: p_def cnt in_set_conv_nth)
        have "Suc j * c \<le> k div c * c" using j(1) by (intro mult_le_mono1) simp
        also have "\<dots> \<le> k" by simp
        finally have "Suc j * c \<le> length s" using k(2) by simp
        then show ?thesis using j by (simp add: full_chunk_before)
      qed
      show ?thesis
        using d full by (simp add: p_def q_def cnt take_chunks_from [OF le])
    qed
    have clean: "exit_status p = EndOfFile \<and> p = q"
      if "read_fault f = None \<or> (\<exists>k. read_fault f = Some k \<and> length s \<le> k)"
    proof -
      from that have d: "deliverable (NewReader f) = length s"
        by (auto simp: NewReader_def deliverable_def s_def)
      then have "emitted_count (NewReader f) c = m"
        by (simp add: emitted_count_def m_def NewReader_def s_def)
      then show ?thesis using d by (simp add: p_def q_def)
    qed
    from runp runq True faulty [unfolded c_def s_def] clean [unfolded c_def s_def]
    show ?thesis by blast
  qed
qed

theorem producer_closes_output_witness:
  "(0::int) < 4 \<and>
   readChunks \<lparr>can_open = True, content = ''ABCDEFGHIJ'', read_fault = Some 9\<rparr> 4 =
     Some \<lparr>emitted = [\<lparr>index = 0, val = ''ABCD''\<rparr>, \<lparr>index = 1, val = ''EFGH''\<rparr>],
           closed = True, exit_status = ReadFailed\<rparr> \<and>
   readChunks (\<lparr>can_open = True, content = ''ABCDEFGHIJ'', read_fault = Some 9\<rparr>
                 \<lparr>read_fault := None\<rparr>) 4 =
     Some \<lparr>emitted = [\<lparr>index = 0, val = ''ABCD''\<rparr>, \<lparr>index = 1, val = ''EFGH''\<rparr>,
                      \<lparr>index = 2, val = ''IJ''\<rparr>],
           closed = True, exit_status = EndOfFile\<rparr> \<and>
   [\<lparr>index = 0, val = ''ABCD''\<rparr>, \<lparr>index = 1, val = ''EFGH''\<rparr>] =
     take (9 div nat 4)
       [\<lparr>index = 0, val = ''ABCD''\<rparr>, \<lparr>index = 1, val = ''EFGH''\<rparr>, \<lparr>index = 2, val = ''IJ''\<rparr>]"
proof -
  let ?f = "\<lparr>can_open = True, content = ''ABCDEFGHIJ'', read_fault = Some 9\<rparr>"
  have p: "readChunks ?f 4 =
     Some \<lparr>emitted = [\<lparr>index = 0, val = ''ABCD''\<rparr>, \<lparr>index = 1, val = ''EFGH''\<rparr>],
           closed = True, exit_status = ReadFailed\<rparr>"
    by code_simp
  have q: "readChunks (?f\<lparr>read_fault := None\<rparr>) 4 =
     Some \<lparr>emitted = [\<lparr>index = 0, val = ''ABCD''\<rparr>, \<lparr>index = 1, val = ''EFGH''\<rparr>,
                      \<lparr>index = 2, val = ''IJ''\<rparr>],
           closed = True, exit_status = EndOfFile\<rparr>"
    by code_simp
  from producer_closes_output [of 4 ?f] obtain p' q' where
    "readChunks ?f 4 = Some p'" "readChunks (?f\<lparr>read_fault := None\<rparr>) 4 = Some q'"
    "emitted p' = take (9 div nat 4) (emitted q')"
    by auto
  with p q show ?thesis by simp
qed

section \<open>The collector\<close>

subsection \<open>The write loop\<close>

lemma put_bytes_written_over:
  "put_bytes b (written_over w old) = written_over (w @ b) old"
  by (simp add: put_bytes_def written_over_def add.commute)

lemma OpenFile_written_over:
  "\<not> open_fails env \<Longrightarrow>
   OpenFile env = Some (written_over [] (case existing env of None \<Rightarrow> [] | Some d \<Rightarrow> d))"
  by (simp add: OpenFile_def written_over_def)

lemma writeLoop_clean:
  assumes "\<forall>j. i \<le> j \<and> j < length result \<longrightarrow> faults j = None"
  shows "writeLoop result faults i \<lparr>handle = written_over w old, writes = ws, done_sent = ds\<rparr> =
     \<lparr>handle = written_over
                 (w @ concat (map (\<lambda>j. lookup result (int j)) [i..<length result])) old,
      writes = ws @ map (\<lambda>j. lookup result (int j)) [i..<length result],
      done_sent = ds\<rparr>"
  using assms
proof (induction "length result - i" arbitrary: i w ws)
  case 0
  then have "\<not> i < length result" by simp
  then show ?case by (subst writeLoop.simps) simp
next
  case (Suc d)
  then have i: "i < length result" by simp
  have f: "faults i = None" using Suc.prems i by simp
  have d: "d = length result - Suc i" using Suc.hyps(2) by simp
  have rest: "\<forall>j. Suc i \<le> j \<and> j < length result \<longrightarrow> faults j = None"
    using Suc.prems by simp
  have step: "writeLoop result faults i \<lparr>handle = written_over w old, writes = ws, done_sent = ds\<rparr> =
      writeLoop result faults (Suc i)
        \<lparr>handle = written_over (w @ lookup result (int i)) old,
         writes = ws @ [lookup result (int i)], done_sent = ds\<rparr>"
    using i f by (subst writeLoop.simps) (simp add: WriteString_def put_bytes_written_over)
  show ?case
    unfolding step Suc.hyps(1) [OF d rest]
    using i by (simp add: upt_conv_Cons)
qed

lemma writeLoop_fault:
  assumes "i \<le> k" "k < length result" "faults k = Some n"
    and "\<forall>j. i \<le> j \<and> j < k \<longrightarrow> faults j = None"
  shows "writeLoop result faults i \<lparr>handle = written_over w old, writes = ws, done_sent = ds\<rparr> =
     \<lparr>handle = written_over
                 (w @ concat (map (\<lambda>j. lookup result (int j)) [i..<k])
                    @ take n (lookup result (int k))) old,
      writes = ws @ map (\<lambda>j. lookup result (int j)) [i..<Suc k],
      done_sent = ds @ [False]\<rparr>"
  using assms
proof (induction "k - i" arbitrary: i w ws)
  case 0
  then have e: "i = k" by simp
  show ?case
    using 0 unfolding e
    by (subst writeLoop.simps) (simp add: WriteString_def put_bytes_written_over)
next
  case (Suc d)
  then have i: "i < k" "i < length result" by simp_all
  have f: "faults i = None" using Suc.prems i by simp
  have d: "d = k - Suc i" using Suc.hyps(2) by simp
  have le: "Suc i \<le> k" using i by simp
  have rest: "\<forall>j. Suc i \<le> j \<and> j < k \<longrightarrow> faults j = None"
    using Suc.prems by simp
  have step: "writeLoop result faults i \<lparr>handle = written_over w old, writes = ws, done_sent = ds\<rparr> =
      writeLoop result faults (Suc i)
        \<lparr>handle = written_over (w @ lookup result (int i)) old,
         writes = ws @ [lookup result (int i)], done_sent = ds\<rparr>"
    using i f by (subst writeLoop.simps) (simp add: WriteString_def put_bytes_written_over)
  show ?case
    unfolding step Suc.hyps(1) [OF d le Suc.prems(2,3) rest]
    using i by (simp add: upt_conv_Cons del: upt_Suc)
qed

lemma writeResults_open_fails:
  "open_fails env \<Longrightarrow>
   writeResults results env = \<lparr>signals = [False], calls = [], disk = existing env\<rparr>"
  by (simp add: writeResults_def OpenFile_def)

lemma writeResults_clean:
  assumes "\<not> open_fails env"
    and "\<forall>j<length (collect results). write_fault env j = None"
  shows "writeResults results env =
     \<lparr>signals = True # (if close_fails env then [False] else []),
      calls = map (\<lambda>j. lookup (collect results) (int j)) [0..<length (collect results)],
      disk = Some (data (written_over
                (concat (map (\<lambda>j. lookup (collect results) (int j))
                           [0..<length (collect results)]))
                (old_content env)))\<rparr>"
proof -
  have "\<forall>j. 0 \<le> j \<and> j < length (collect results) \<longrightarrow> write_fault env j = None"
    using assms(2) by simp
  from writeLoop_clean [OF this, of "[]" "old_content env" "[]" "[]"] show ?thesis
    using assms(1)
    by (simp add: writeResults_def OpenFile_written_over old_content_def Let_def)
qed

lemma writeResults_fault:
  assumes "\<not> open_fails env" "k < length (collect results)" "write_fault env k = Some n"
    and "\<forall>j<k. write_fault env j = None"
  shows "writeResults results env =
     \<lparr>signals = False # True # (if close_fails env then [False] else []),
      calls = map (\<lambda>j. lookup (collect results) (int j)) [0..<Suc k],
      disk = Some (data (written_over
                (concat (map (\<lambda>j. lookup (collect results) (int j)) [0..<k])
                   @ take n (lookup (collect results) (int k)))
                (old_content env)))\<rparr>"
proof -
  have "\<forall>j. 0 \<le> j \<and> j < k \<longrightarrow> write_fault env j = None"
    using assms(4) by simp
  from writeLoop_fault [OF _ assms(2,3) this, of "[]" "old_content env" "[]" "[]"] show ?thesis
    using assms(1)
    by (simp add: writeResults_def OpenFile_written_over old_content_def Let_def)
qed

subsection \<open>The collected map\<close>

lemma collect_snoc:
  "collect (results @ [ct]) = AList.update (index ct) (val ct) (collect results)"
  by (simp add: collect_def)

lemma distinct_collect: "distinct (map fst (collect results))"
  by (induction results rule: rev_induct) (simp_all add: collect_def distinct_update)

lemma map_of_collect:
  "map_of (collect results) k =
     (if filter (\<lambda>ct. index ct = k) results = [] then None
      else Some (val (last (filter (\<lambda>ct. index ct = k) results))))"
proof (induction results rule: rev_induct)
  case Nil
  show ?case by (simp add: collect_def)
next
  case (snoc x xs)
  show ?case
  proof (cases "index x = k")
    case True
    then show ?thesis by (simp add: collect_snoc update_conv')
  next
    case False
    then show ?thesis using snoc by (simp add: collect_snoc update_conv')
  qed
qed

lemma filter_index_empty:
  "(filter (\<lambda>ct. index ct = k) results = []) = (k \<notin> index ` set results)"
  by (auto simp: filter_empty_conv)

lemma dom_collect: "dom (map_of (collect results)) = index ` set results"
proof -
  have "(map_of (collect results) k \<noteq> None) = (k \<in> index ` set results)" for k
    using filter_index_empty [of k results] by (simp add: map_of_collect)
  then show ?thesis by (auto simp: dom_def)
qed

lemma length_collect: "length (collect results) = card (index ` set results)"
proof -
  have "length (collect results) = length (map fst (collect results))" by simp
  also have "\<dots> = card (set (map fst (collect results)))"
    by (rule distinct_card [symmetric]) (rule distinct_collect)
  also have "set (map fst (collect results)) = dom (map_of (collect results))"
    by (simp add: dom_map_of_conv_image_fst)
  finally show ?thesis by (simp add: dom_collect)
qed

lemma lookup_missing: "k \<notin> index ` set results \<Longrightarrow> lookup (collect results) k = []"
  using filter_index_empty [of k results] by (simp add: lookup_def map_of_collect)

lemma lookup_last:
  "k \<in> index ` set results \<Longrightarrow>
   lookup (collect results) k = val (last (filter (\<lambda>ct. index ct = k) results))"
  using filter_index_empty [of k results] by (simp add: lookup_def map_of_collect)

lemma filter_index_unique:
  assumes "distinct (map index results)" "ct \<in> set results"
  shows "filter (\<lambda>x. index x = index ct) results = [ct]"
  using assms
proof (induction results)
  case Nil
  then show ?case by simp
next
  case (Cons a as)
  show ?case
  proof (cases "a = ct")
    case True
    then have "index ct \<notin> index ` set as" using Cons.prems(1) by auto
    then have "filter (\<lambda>x. index x = index ct) as = []"
      by (simp add: filter_index_empty)
    then show ?thesis using True by simp
  next
    case False
    then have in_as: "ct \<in> set as" using Cons.prems(2) by simp
    then have "index a \<noteq> index ct" using Cons.prems(1) by auto
    then show ?thesis using Cons.IH in_as Cons.prems(1) by simp
  qed
qed

lemma lookup_unique:
  assumes "distinct (map index results)" "ct \<in> set results"
  shows "lookup (collect results) (index ct) = val ct"
  using filter_index_unique [OF assms] by (simp add: lookup_def map_of_collect)

subsection \<open>What the collector writes and reports\<close>

lemma first_fault:
  fixes m :: nat and faults :: "nat \<Rightarrow> nat option"
  assumes "\<not> (\<forall>j<m. faults j = None)"
  shows "\<exists>k n. k < m \<and> faults k = Some n \<and> (\<forall>j<k. faults j = None)"
proof -
  define k where "k = (LEAST j. j < m \<and> faults j \<noteq> None)"
  from assms obtain j where j: "j < m \<and> faults j \<noteq> None" by auto
  then have k: "k < m \<and> faults k \<noteq> None"
    unfolding k_def by (rule LeastI [of "\<lambda>j. j < m \<and> faults j \<noteq> None" j])
  have "faults i = None" if "i < k" for i
  proof (rule ccontr)
    assume "faults i \<noteq> None"
    then have "i < m \<and> faults i \<noteq> None" using that k by simp
    then have "k \<le> i"
      unfolding k_def by (rule Least_le [of "\<lambda>j. j < m \<and> faults j \<noteq> None" i])
    then show False using that by simp
  qed
  then show ?thesis using k by auto
qed

lemma reported_simps [simp]: "reported \<lparr>signals = b # bs, calls = cs, disk = d\<rparr> = Some b"
  by (simp add: reported_def)

text \<open>
  Claim C4. When the output file opens, the collector calls \<^verbatim>\<open>WriteString\<close> with the
  payloads found under the indices \<open>0, 1, \<dots>, count - 1\<close>, in that order, where
  \<open>count\<close> is the number of entries collected, that is the number of distinct indices
  received. If no call fails, all \<open>count\<close> calls are made and the value received from
  \<^verbatim>\<open>done\<close> is \<open>true\<close>. If the call for index \<open>k\<close> is the first to fail, no call is made
  after it and the value received from \<^verbatim>\<open>done\<close> is \<open>false\<close>.
\<close>
theorem collector_write_order:
  assumes "\<not> open_fails env"
  shows "length (collect results) = card (index ` set results) \<and>
    ((\<forall>j<length (collect results). write_fault env j = None) \<longrightarrow>
       calls (writeResults results env) =
         map (\<lambda>j. lookup (collect results) (int j)) [0..<length (collect results)] \<and>
       reported (writeResults results env) = Some True) \<and>
    (\<forall>k n. k < length (collect results) \<and> write_fault env k = Some n \<and>
           (\<forall>j<k. write_fault env j = None) \<longrightarrow>
       calls (writeResults results env) =
         map (\<lambda>j. lookup (collect results) (int j)) [0..<Suc k] \<and>
       reported (writeResults results env) = Some False)"
proof (intro conjI impI allI)
  show "length (collect results) = card (index ` set results)" by (rule length_collect)
next
  assume ok: "\<forall>j<length (collect results). write_fault env j = None"
  show "calls (writeResults results env) =
         map (\<lambda>j. lookup (collect results) (int j)) [0..<length (collect results)]"
    by (simp add: writeResults_clean [OF assms ok])
  show "reported (writeResults results env) = Some True"
    by (simp add: writeResults_clean [OF assms ok])
next
  fix k n
  assume "k < length (collect results) \<and> write_fault env k = Some n \<and>
           (\<forall>j<k. write_fault env j = None)"
  then have k: "k < length (collect results)" "write_fault env k = Some n"
    "\<forall>j<k. write_fault env j = None" by simp_all
  show "calls (writeResults results env) =
         map (\<lambda>j. lookup (collect results) (int j)) [0..<Suc k]"
    by (simp add: writeResults_fault [OF assms k] del: upt_Suc)
  show "reported (writeResults results env) = Some False"
    by (simp add: writeResults_fault [OF assms k] del: upt_Suc)
qed

text \<open>
  Claim C10. When a call of \<^verbatim>\<open>WriteString\<close> fails in the loop, the collector sends
  \<open>false\<close> on \<^verbatim>\<open>done\<close>, leaves the loop and then, on line 86, sends \<open>true\<close> on the
  same channel: one run emits failure followed by success (and a third value, \<open>false\<close>,
  when closing the file fails as well).
\<close>
theorem collector_failure_then_success:
  assumes "\<not> open_fails env" "k < length (collect results)" "write_fault env k = Some n"
    and "\<forall>j<k. write_fault env j = None"
  shows "signals (writeResults results env) =
           False # True # (if close_fails env then [False] else [])"
  by (simp add: writeResults_fault [OF assms] del: upt_Suc)

text \<open>
  Claim C5, as the code has it. The output file is opened for writing and created when
  missing, but not truncated. When the open fails the collector sends \<open>false\<close>, makes no
  call of \<^verbatim>\<open>WriteString\<close> and leaves the path as it was. When it succeeds, the final
  content of the file is the bytes \<open>w\<close> that reached it in this run, followed by whatever
  the earlier content held beyond the first \<open>length w\<close> bytes; \<open>w\<close> is a prefix of the
  concatenated arguments of the calls, and all of them when no call fails.
\<close>
theorem collector_overwrites_in_place:
  "(open_fails env \<longrightarrow>
      writeResults results env = \<lparr>signals = [False], calls = [], disk = existing env\<rparr>) \<and>
   (\<not> open_fails env \<longrightarrow>
      (\<exists>w. disk (writeResults results env) = Some (w @ drop (length w) (old_content env)) \<and>
           prefix w (concat (calls (writeResults results env))) \<and>
           ((\<forall>j<length (collect results). write_fault env j = None) \<longrightarrow>
              w = concat (calls (writeResults results env)))))"
proof (intro conjI impI)
  assume "open_fails env"
  then show "writeResults results env = \<lparr>signals = [False], calls = [], disk = existing env\<rparr>"
    by (rule writeResults_open_fails)
next
  assume op: "\<not> open_fails env"
  let ?f = "\<lambda>j. lookup (collect results) (int j)"
  let ?m = "length (collect results)"
  show "\<exists>w. disk (writeResults results env) = Some (w @ drop (length w) (old_content env)) \<and>
           prefix w (concat (calls (writeResults results env))) \<and>
           ((\<forall>j<?m. write_fault env j = None) \<longrightarrow>
              w = concat (calls (writeResults results env)))"
  proof (cases "\<forall>j<?m. write_fault env j = None")
    case True
    show ?thesis
      by (rule exI [of _ "concat (map ?f [0..<?m])"])
         (simp add: writeResults_clean [OF op True] written_over_def)
  next
    case False
    from first_fault [OF this] obtain k n where
      k: "k < ?m" "write_fault env k = Some n" "\<forall>j<k. write_fault env j = None" by blast
    define w where "w = concat (map ?f [0..<k]) @ take n (?f k)"
    have d: "disk (writeResults results env) = Some (w @ drop (length w) (old_content env))"
      by (simp add: writeResults_fault [OF op k] written_over_def w_def del: upt_Suc)
    have "concat (calls (writeResults results env)) = concat (map ?f [0..<k]) @ ?f k"
      by (simp add: writeResults_fault [OF op k])
    then have p: "prefix w (concat (calls (writeResults results env)))"
      by (simp add: w_def take_is_prefix)
    from d p False show ?thesis by blast
  qed
qed

lemma collect_sample:
  "collect [\<lparr>index = 1, val = ''CD''\<rparr>, \<lparr>index = 0, val = ''AB''\<rparr>, \<lparr>index = 2, val = ''EF''\<rparr>] =
     [(1, ''CD''), (0, ''AB''), (2, ''EF'')]"
  by (simp add: collect_def)

theorem collector_write_order_witness:
  "\<not> open_fails \<lparr>open_fails = False, existing = None,
                  write_fault = (\<lambda>i. if i = 1 then Some 1 else None), close_fails = False\<rparr> \<and>
   calls (writeResults
       [\<lparr>index = 1, val = ''CD''\<rparr>, \<lparr>index = 0, val = ''AB''\<rparr>, \<lparr>index = 2, val = ''EF''\<rparr>]
       \<lparr>open_fails = False, existing = None,
        write_fault = (\<lambda>i. if i = 1 then Some 1 else None), close_fails = False\<rparr>) =
     [''AB'', ''CD''] \<and>
   reported (writeResults
       [\<lparr>index = 1, val = ''CD''\<rparr>, \<lparr>index = 0, val = ''AB''\<rparr>, \<lparr>index = 2, val = ''EF''\<rparr>]
       \<lparr>open_fails = False, existing = None,
        write_fault = (\<lambda>i. if i = 1 then Some 1 else None), close_fails = False\<rparr>) =
     Some False \<and>
   calls (writeResults
       [\<lparr>index = 1, val = ''CD''\<rparr>, \<lparr>index = 0, val = ''AB''\<rparr>, \<lparr>index = 2, val = ''EF''\<rparr>]
       \<lparr>open_fails = False, existing = None,
        write_fault = (\<lambda>i. None), close_fails = False\<rparr>) =
     [''AB'', ''CD'', ''EF''] \<and>
   reported (writeResults
       [\<lparr>index = 1, val = ''CD''\<rparr>, \<lparr>index = 0, val = ''AB''\<rparr>, \<lparr>index = 2, val = ''EF''\<rparr>]
       \<lparr>open_fails = False, existing = None,
        write_fault = (\<lambda>i. None), close_fails = False\<rparr>) =
     Some True"
proof -
  let ?rs = "[\<lparr>index = 1, val = ''CD''\<rparr>, \<lparr>index = 0, val = ''AB''\<rparr>, \<lparr>index = 2, val = ''EF''\<rparr>]"
  let ?bad = "\<lparr>open_fails = False, existing = None,
        write_fault = (\<lambda>i. if i = 1 then Some (1::nat) else None), close_fails = False\<rparr>"
  let ?good = "\<lparr>open_fails = False, existing = None,
        write_fault = (\<lambda>i::nat. None :: nat option), close_fails = False\<rparr>"
  have b: "\<not> open_fails ?bad" and g: "\<not> open_fails ?good" by simp_all
  have "(1::nat) < length (collect ?rs) \<and> write_fault ?bad 1 = Some 1 \<and>
        (\<forall>j<1. write_fault ?bad j = None)"
    by (simp add: collect_sample)
  with collector_write_order [OF b, of ?rs]
  have "calls (writeResults ?rs ?bad) = map (\<lambda>j. lookup (collect ?rs) (int j)) [0..<Suc 1] \<and>
        reported (writeResults ?rs ?bad) = Some False"
    by blast
  moreover have "\<forall>j<length (collect ?rs). write_fault ?good j = None" by simp
  with collector_write_order [OF g, of ?rs]
  have "calls (writeResults ?rs ?good) =
          map (\<lambda>j. lookup (collect ?rs) (int j)) [0..<length (collect ?rs)] \<and>
        reported (writeResults ?rs ?good) = Some True"
    by blast
  ultimately show ?thesis
    by (simp add: collect_sample lookup_def numeral_3_eq_3)
qed

theorem collector_failure_then_success_witness:
  "signals (writeResults
       [\<lparr>index = 1, val = ''CD''\<rparr>, \<lparr>index = 0, val = ''AB''\<rparr>, \<lparr>index = 2, val = ''EF''\<rparr>]
       \<lparr>open_fails = False, existing = None,
        write_fault = (\<lambda>i. if i = 1 then Some 1 else None), close_fails = False\<rparr>) =
     [False, True]"
proof -
  let ?rs = "[\<lparr>index = 1, val = ''CD''\<rparr>, \<lparr>index = 0, val = ''AB''\<rparr>, \<lparr>index = 2, val = ''EF''\<rparr>]"
  let ?bad = "\<lparr>open_fails = False, existing = None,
        write_fault = (\<lambda>i. if i = 1 then Some (1::nat) else None), close_fails = False\<rparr>"
  have "\<not> open_fails ?bad" "(1::nat) < length (collect ?rs)" "write_fault ?bad 1 = Some 1"
    "\<forall>j<1. write_fault ?bad j = None"
    by (simp_all add: collect_sample)
  from collector_failure_then_success [OF this] show ?thesis by simp
qed

text \<open>
  Claim C5 as stated fails on a longer earlier content: writing the two bytes \<open>AB\<close> to
  a file that holds \<open>XXXXXX\<close> leaves \<open>ABXXXX\<close>, not the bytes written in the run.
\<close>

theorem collector_overwrites_in_place_counterexample:
  "disk (writeResults [\<lparr>index = 0, val = ''AB''\<rparr>]
           \<lparr>open_fails = False, existing = Some ''XXXXXX'',
            write_fault = (\<lambda>i. None), close_fails = False\<rparr>) = Some ''ABXXXX'' \<and>
   concat (calls (writeResults [\<lparr>index = 0, val = ''AB''\<rparr>]
           \<lparr>open_fails = False, existing = Some ''XXXXXX'',
            write_fault = (\<lambda>i. None), close_fails = False\<rparr>)) = ''AB'' \<and>
   disk (writeResults [\<lparr>index = 0, val = ''AB''\<rparr>]
           \<lparr>open_fails = False, existing = Some ''XXXXXX'',
            write_fault = (\<lambda>i. None), close_fails = False\<rparr>) \<noteq>
   Some (concat (calls (writeResults [\<lparr>index = 0, val = ''AB''\<rparr>]
           \<lparr>open_fails = False, existing = Some ''XXXXXX'',
            write_fault = (\<lambda>i. None), close_fails = False\<rparr>)))"
  by (simp add: writeResults_def OpenFile_def collect_def lookup_def writeLoop.simps
      WriteString_def put_bytes_def)

theorem collector_overwrites_in_place_witness:
  "\<not> open_fails \<lparr>open_fails = False, existing = Some ''XXXXXX'',
            write_fault = (\<lambda>i. None), close_fails = False\<rparr> \<and>
   (\<exists>w. disk (writeResults [\<lparr>index = 0, val = ''AB''\<rparr>]
           \<lparr>open_fails = False, existing = Some ''XXXXXX'',
            write_fault = (\<lambda>i. None), close_fails = False\<rparr>) = Some (w @ drop (length w) ''XXXXXX'') \<and>
        w = ''AB'') \<and>
   writeResults [\<lparr>index = 0, val = ''AB''\<rparr>]
           \<lparr>open_fails = True, existing = Some ''XXXXXX'',
            write_fault = (\<lambda>i. None), close_fails = False\<rparr> =
     \<lparr>signals = [False], calls = [], disk = Some ''XXXXXX''\<rparr>"
proof -
  let ?rs = "[\<lparr>index = 0, val = ''AB''\<rparr>]"
  let ?env = "\<lparr>open_fails = False, existing = Some ''XXXXXX'',
            write_fault = (\<lambda>i::nat. None :: nat option), close_fails = False\<rparr>"
  let ?shut = "\<lparr>open_fails = True, existing = Some ''XXXXXX'',
            write_fault = (\<lambda>i::nat. None :: nat option), close_fails = False\<rparr>"
  have c: "concat (calls (writeResults ?rs ?env)) = ''AB''"
    by (simp add: writeResults_def OpenFile_def collect_def lookup_def writeLoop.simps
      WriteString_def put_bytes_def)
  from collector_overwrites_in_place [of ?env ?rs] obtain w where
    "disk (writeResults ?rs ?env) = Some (w @ drop (length w) (old_content ?env))"
    "w = concat (calls (writeResults ?rs ?env))"
    by auto
  moreover from collector_overwrites_in_place [of ?shut ?rs]
  have "writeResults ?rs ?shut = \<lparr>signals = [False], calls = [], disk = existing ?shut\<rparr>"
    by simp
  ultimately show ?thesis using c by (simp add: old_content_def)
qed

lemma lookup_payload_change:
  assumes "\<And>ct. index (h ct) = index ct"
    and "\<And>ct. index ct = k \<Longrightarrow> h ct = ct"
  shows "lookup (collect (map h results)) k = lookup (collect results) k"
proof -
  have "filter (\<lambda>ct. index ct = k) (map h results) =
        map h (filter (\<lambda>ct. index ct = k) results)"
    by (simp add: filter_map comp_def assms(1))
  also have "\<dots> = filter (\<lambda>ct. index ct = k) results"
    by (rule map_idI) (simp add: assms(2))
  finally show ?thesis by (simp add: lookup_def map_of_collect)
qed

lemma noncontiguous_cases:
  fixes A :: "int set" and n :: nat
  assumes "finite A" "card A = n" "A \<noteq> {0..<int n}"
  shows "(\<exists>a\<in>A. a < 0 \<or> int n \<le> a) \<and> (\<exists>j<n. int j \<notin> A)"
proof -
  let ?B = "{0..<int n}"
  have cb: "card ?B = n" by simp
  have "\<not> A \<subseteq> ?B"
  proof
    assume "A \<subseteq> ?B"
    then have "A = ?B" using assms(2) cb by (intro card_subset_eq) simp_all
    then show False using assms(3) by simp
  qed
  then have 1: "\<exists>a\<in>A. a < 0 \<or> int n \<le> a" by fastforce
  have "\<not> ?B \<subseteq> A"
  proof
    assume "?B \<subseteq> A"
    then have "?B = A" using assms(1,2) cb by (intro card_subset_eq) simp_all
    then show False using assms(3) by simp
  qed
  then have "\<exists>b. b \<in> ?B \<and> b \<notin> A" by blast
  then obtain b where b: "0 \<le> b" "b < int n" "b \<notin> A" by auto
  then have "nat b < n \<and> int (nat b) \<notin> A" by simp
  then have 2: "\<exists>j<n. int j \<notin> A" by blast
  from 1 2 show ?thesis by simp
qed

text \<open>
  Claim C3. In a run without I/O failure the collector makes exactly \<open>count\<close> calls of
  \<^verbatim>\<open>WriteString\<close>, one for each of \<open>0, 1, \<dots>, count - 1\<close>, where \<open>count\<close> is the
  number of entries of the map, and reports success. A number in that range that is no
  key of the map is looked up all the same and yields the empty string. A result whose
  index is negative or at least \<open>count\<close> is skipped: replacing its payload by any other
  changes nothing in what the collector does. When the indices received are not exactly
  \<open>0, \<dots>, count - 1\<close>, both happen: some result is skipped and some lookup finds no
  entry.
\<close>
theorem collector_skips_noncontiguous:
  assumes "\<not> open_fails env"
    and "\<forall>j<length (collect results). write_fault env j = None"
  shows "length (collect results) = card (index ` set results) \<and>
    calls (writeResults results env) =
      map (\<lambda>j. lookup (collect results) (int j)) [0..<length (collect results)] \<and>
    reported (writeResults results env) = Some True \<and>
    (\<forall>j<length (collect results). int j \<notin> index ` set results \<longrightarrow>
        calls (writeResults results env) ! j = []) \<and>
    (\<forall>g. writeResults
           (map (\<lambda>ct. if 0 \<le> index ct \<and> index ct < int (length (collect results)) then ct
                       else ct\<lparr>val := g ct\<rparr>) results) env =
         writeResults results env) \<and>
    (index ` set results \<noteq> {0..<int (length (collect results))} \<longrightarrow>
       (\<exists>ct\<in>set results. index ct < 0 \<or> int (length (collect results)) \<le> index ct) \<and>
       (\<exists>j<length (collect results). int j \<notin> index ` set results))"
proof -
  let ?n = "length (collect results)"
  let ?r = "writeResults results env"
  have n: "?n = card (index ` set results)" by (rule length_collect)
  have c: "calls ?r = map (\<lambda>j. lookup (collect results) (int j)) [0..<?n]"
    by (simp add: writeResults_clean [OF assms])
  have r: "reported ?r = Some True"
    by (simp add: writeResults_clean [OF assms])
  have miss: "calls ?r ! j = []" if "j < ?n" "int j \<notin> index ` set results" for j
    using that by (simp add: c lookup_missing)
  have skip: "writeResults
           (map (\<lambda>ct. if 0 \<le> index ct \<and> index ct < int ?n then ct
                       else ct\<lparr>val := g ct\<rparr>) results) env = ?r" for g
  proof -
    let ?h = "\<lambda>ct. if 0 \<le> index ct \<and> index ct < int ?n then ct else ct\<lparr>val := g ct\<rparr>"
    have ih: "index (?h ct) = index ct" for ct by simp
    have "map index (map ?h results) = map index results"
      by (rule list.map_cong0 [THEN trans [OF list.map_comp]]) simp
    then have "set (map index (map ?h results)) = set (map index results)"
      by (rule arg_cong)
    then have "index ` set (map ?h results) = index ` set results"
      by (simp only: set_map)
    then have n': "length (collect (map ?h results)) = ?n"
      by (simp only: length_collect)
    have l: "lookup (collect (map ?h results)) (int j) = lookup (collect results) (int j)"
      if "j < ?n" for j
      using that by (intro lookup_payload_change) simp_all
    have ok': "\<forall>j<length (collect (map ?h results)). write_fault env j = None"
      using assms(2) n' by simp
    have m: "map (\<lambda>j. lookup (collect (map ?h results)) (int j)) [0..<?n] =
          map (\<lambda>j. lookup (collect results) (int j)) [0..<?n]"
      by (rule map_cong) (simp_all add: l)
    show ?thesis
      unfolding writeResults_clean [OF assms] writeResults_clean [OF assms(1) ok'] n' m
      by (rule refl)
  qed
  have gap: "(\<exists>ct\<in>set results. index ct < 0 \<or> int ?n \<le> index ct) \<and>
       (\<exists>j<?n. int j \<notin> index ` set results)"
    if "index ` set results \<noteq> {0..<int ?n}"
    using noncontiguous_cases [of "index ` set results" ?n] that n by auto
  from n c r miss skip gap show ?thesis by blast
qed

theorem collector_skips_noncontiguous_witness:
  "\<not> open_fails \<lparr>open_fails = False, existing = None,
                  write_fault = (\<lambda>i. None), close_fails = False\<rparr> \<and>
   length (collect [\<lparr>index = 0, val = ''AB''\<rparr>, \<lparr>index = 2, val = ''EF''\<rparr>]) = 2 \<and>
   calls (writeResults [\<lparr>index = 0, val = ''AB''\<rparr>, \<lparr>index = 2, val = ''EF''\<rparr>]
            \<lparr>open_fails = False, existing = None,
             write_fault = (\<lambda>i. None), close_fails = False\<rparr>) = [''AB'', []] \<and>
   reported (writeResults [\<lparr>index = 0, val = ''AB''\<rparr>, \<lparr>index = 2, val = ''EF''\<rparr>]
            \<lparr>open_fails = False, existing = None,
             write_fault = (\<lambda>i. None), close_fails = False\<rparr>) = Some True"
proof -
  let ?rs = "[\<lparr>index = 0, val = ''AB''\<rparr>, \<lparr>index = 2, val = ''EF''\<rparr>]"
  let ?env = "\<lparr>open_fails = False, existing = None,
             write_fault = (\<lambda>i::nat. None :: nat option), close_fails = False\<rparr>"
  have c: "collect ?rs = [(0, ''AB''), (2, ''EF'')]" by (simp add: collect_def)
  have "\<not> open_fails ?env" "\<forall>j<length (collect ?rs). write_fault ?env j = None"
    by simp_all
  from collector_skips_noncontiguous [OF this] show ?thesis
    by (simp add: c lookup_def numeral_2_eq_2)
qed

section \<open>The pipeline\<close>

lemma concat_chunks: "concat (map (chunk_at c s) [0..<m]) = take (m * c) s"
proof (induction m)
  case 0
  show ?case by simp
next
  case (Suc m)
  have "take (m * c + c) s = take (m * c) s @ take c (drop (m * c) s)"
    by (rule take_add)
  then show ?case using Suc by (simp add: chunk_at_def add.commute)
qed

lemma concat_all_chunks:
  assumes "0 < c"
  shows "concat (map val (chunks_from i c s ((length s + c - 1) div c))) = s"
proof -
  have "map val (chunks_from i c s ((length s + c - 1) div c)) =
        map (chunk_at c s) [0..<(length s + c - 1) div c]"
    by (simp add: chunks_from_def comp_def)
  then show ?thesis using ceil_div_covers [OF assms, of "length s"]
    by (simp add: concat_chunks)
qed

lemma collect_contiguous:
  assumes "mset results = mset xs" "map index xs = map int [0..<length xs]"
  shows "length (collect results) = length xs"
    and "j < length xs \<Longrightarrow> lookup (collect results) (int j) = val (xs ! j)"
proof -
  have d: "distinct (map index xs)" unfolding assms(2) by (simp add: distinct_map inj_on_def)
  have "mset (map index results) = image_mset index (mset results)" by (rule mset_map)
  also have "\<dots> = image_mset index (mset xs)" by (simp only: assms(1))
  also have "\<dots> = mset (map index xs)" by (rule mset_map [symmetric])
  finally have "distinct (map index results) = distinct (map index xs)"
    by (rule mset_eq_imp_distinct_iff)
  then have dr: "distinct (map index results)" using d by simp
  have s: "set results = set xs" using assms(1) by (rule mset_eq_setD)
  have "length (collect results) = card (set (map index xs))"
    by (simp add: length_collect s)
  also have "\<dots> = length (map index xs)" using d by (rule distinct_card)
  finally show "length (collect results) = length xs" by simp
  show "lookup (collect results) (int j) = val (xs ! j)" if j: "j < length xs"
  proof -
    have "xs ! j \<in> set results" using j s by simp
    from lookup_unique [OF dr this] have "lookup (collect results) (index (xs ! j)) = val (xs ! j)" .
    moreover have "index (xs ! j) = map index xs ! j" using j by simp
    then have "index (xs ! j) = int j" unfolding assms(2) using j by simp
    ultimately show ?thesis by simp
  qed
qed

lemma calls_in_order:
  assumes "\<not> open_fails env" "\<forall>j. write_fault env j = None"
    and "mset results = mset xs" "map index xs = map int [0..<length xs]"
  shows "writeResults results env =
     \<lparr>signals = True # (if close_fails env then [False] else []),
      calls = map val xs,
      disk = Some (concat (map val xs) @ drop (length (concat (map val xs))) (old_content env))\<rparr>"
proof -
  have ok: "\<forall>j<length (collect results). write_fault env j = None" using assms(2) by simp
  have "map (\<lambda>j. lookup (collect results) (int j)) [0..<length xs] =
        map (\<lambda>j. val (xs ! j)) [0..<length xs]"
    by (rule map_cong) (simp_all add: collect_contiguous(2) [OF assms(3,4)])
  also have "\<dots> = map val xs" by (rule nth_equalityI) simp_all
  finally have m: "map (\<lambda>j. lookup (collect results) (int j)) [0..<length xs] = map val xs" .
  show ?thesis
    unfolding writeResults_clean [OF assms(1) ok] collect_contiguous(1) [OF assms(3,4)] m
    by (simp add: written_over_def)
qed

lemma emitted_indices:
  assumes "readChunks f sz = Some p"
  shows "map index (emitted p) = map int [0..<length (emitted p)]"
  using readChunks_cases [OF assms]
proof
  assume "emitted p = []"
  then show ?thesis by simp
next
  assume "0 < sz \<and> can_open f \<and>
    emitted p = chunks_from 0 (nat sz) (content f) (emitted_count (NewReader f) (nat sz))"
  then show ?thesis by (simp add: index_chunks_from)
qed

lemma readChunks_returns:
  assumes "0 < sz"
  shows "\<exists>p. readChunks f sz = Some p \<and> exit_status p \<noteq> MakeSliceLenOutOfRange"
proof (cases "can_open f")
  case True
  then show ?thesis by (simp add: readChunks_eq [OF assms])
next
  case False
  then show ?thesis by (simp add: readChunks_def)
qed

lemma run_in_order:
  assumes "0 < sz" "0 < num"
    and "ProcessFile inp env process num sz r"
    and "\<forall>ct. index (process ct) = index ct"
    and "\<not> open_fails env" "\<forall>j. write_fault env j = None"
    and "readChunks inp sz = Some p"
  shows "calls r = map (\<lambda>ct. val (process ct)) (emitted p) \<and>
         reported r = Some True \<and>
         disk r = Some (concat (calls r) @ drop (length (concat (calls r))) (old_content env)) \<and>
         ((\<forall>ct. process ct = ct) \<and> can_open inp \<and> read_fault inp = None \<longrightarrow>
            concat (calls r) = content inp \<and>
            disk r = Some (content inp @ drop (length (content inp)) (old_content env)) \<and>
            (disk r = Some (content inp)) = (length (old_content env) \<le> length (content inp)))"
  using assms(3)
proof cases
  case no_workers
  then show ?thesis using assms(2) by simp
next
  case (workers p' results)
  have pp: "p' = p" using workers(3) assms(7) by simp
  let ?xs = "map process (emitted p)"
  have i: "map index (emitted p) = map int [0..<length (emitted p)]"
    using assms(7) by (rule emitted_indices)
  have "map index ?xs = map index (emitted p)" using assms(4) by simp
  then have ix: "map index ?xs = map int [0..<length ?xs]" using i by simp
  have ms: "mset results = mset ?xs" using workers(5) pp by simp
  have r: "r = \<lparr>signals = True # (if close_fails env then [False] else []),
      calls = map val ?xs,
      disk = Some (concat (map val ?xs) @ drop (length (concat (map val ?xs))) (old_content env))\<rparr>"
    unfolding workers(1) using assms(5,6) ms ix by (rule calls_in_order)
  have c: "calls r = map (\<lambda>ct. val (process ct)) (emitted p)"
    by (simp add: r comp_def)
  have rep: "reported r = Some True" by (simp add: r)
  have d: "disk r = Some (concat (calls r) @ drop (length (concat (calls r))) (old_content env))"
    by (simp add: r)
  have ident: "concat (calls r) = content inp \<and>
      disk r = Some (content inp @ drop (length (content inp)) (old_content env)) \<and>
      (disk r = Some (content inp)) = (length (old_content env) \<le> length (content inp))"
    if "(\<forall>ct. process ct = ct) \<and> can_open inp \<and> read_fault inp = None"
  proof -
    from that have pid: "\<And>ct. process ct = ct" and op: "can_open inp"
      and clean: "read_fault inp = None" by simp_all
    have "emitted p = chunks_from 0 (nat sz) (content inp)
        ((length (content inp) + nat sz - 1) div nat sz)"
      using assms(7) readChunks_eq [OF assms(1) op] emitted_count_clean [OF clean, of "nat sz"]
      by auto
    then have "concat (map val (emitted p)) = content inp"
      using assms(1) by (simp only: concat_all_chunks)
    then have cc: "concat (calls r) = content inp" by (simp add: c pid)
    then have dd: "disk r = Some (content inp @ drop (length (content inp)) (old_content env))"
      using d by simp
    have "(disk r = Some (content inp)) = (length (old_content env) \<le> length (content inp))"
      unfolding dd by simp
    with cc dd show ?thesis by simp
  qed
  from c rep d ident show ?thesis by blast
qed

lemma every_order_runs:
  assumes "0 < num" "readChunks inp sz = Some p" "exit_status p \<noteq> MakeSliceLenOutOfRange"
    and "mset results = mset (map process (emitted p))"
  shows "ProcessFile inp env process num sz (writeResults results env)"
  using assms by (rule ProcessFile.workers)

text \<open>
  Claim C1, as the code has it. Take a chunk size \<open>C > 0\<close>, \<open>N > 0\<close> workers, a
  transform that keeps the index of every shard and an output file that opens and takes
  every write. The producer returns, and every order in which the processed shards can
  reach the collector gives a run of the pipeline that returns. In every such run the
  calls of \<^verbatim>\<open>WriteString\<close> carry the payloads of the processed shards in ascending index
  order \<open>0, 1, 2, \<dots>\<close>, the run reports success, and the file holds the bytes written
  followed by what the earlier content held beyond their length. With the identity
  transform and an input that opens and reads without fault the bytes written are exactly
  the bytes of the input; the output file equals the input exactly when the earlier
  content of the output path was not longer than the input.
\<close>
theorem pipeline_restores_order:
  assumes "0 < sz" "0 < num"
    and "\<forall>ct. index (process ct) = index ct"
    and "\<not> open_fails env" "\<forall>j. write_fault env j = None"
  shows "\<exists>p. readChunks inp sz = Some p \<and>
    map index (emitted p) = map int [0..<length (emitted p)] \<and>
    (\<forall>results. mset results = mset (map process (emitted p)) \<longrightarrow>
       ProcessFile inp env process num sz (writeResults results env)) \<and>
    (\<forall>r. ProcessFile inp env process num sz r \<longrightarrow>
       calls r = map (\<lambda>ct. val (process ct)) (emitted p) \<and>
       reported r = Some True \<and>
       disk r = Some (concat (calls r) @ drop (length (concat (calls r))) (old_content env)) \<and>
       ((\<forall>ct. process ct = ct) \<and> can_open inp \<and> read_fault inp = None \<longrightarrow>
          concat (calls r) = content inp \<and>
          disk r = Some (content inp @ drop (length (content inp)) (old_content env)) \<and>
          (disk r = Some (content inp)) = (length (old_content env) \<le> length (content inp))))"
proof -
  from readChunks_returns [OF assms(1), of inp] obtain p where
    p: "readChunks inp sz = Some p" "exit_status p \<noteq> MakeSliceLenOutOfRange" by blast
  have i: "map index (emitted p) = map int [0..<length (emitted p)]"
    using p(1) by (rule emitted_indices)
  have ex: "\<forall>results. mset results = mset (map process (emitted p)) \<longrightarrow>
       ProcessFile inp env process num sz (writeResults results env)"
    using every_order_runs [OF assms(2) p] by blast
  have al: "\<forall>r. ProcessFile inp env process num sz r \<longrightarrow>
       calls r = map (\<lambda>ct. val (process ct)) (emitted p) \<and>
       reported r = Some True \<and>
       disk r = Some (concat (calls r) @ drop (length (concat (calls r))) (old_content env)) \<and>
       ((\<forall>ct. process ct = ct) \<and> can_open inp \<and> read_fault inp = None \<longrightarrow>
          concat (calls r) = content inp \<and>
          disk r = Some (content inp @ drop (length (content inp)) (old_content env)) \<and>
          (disk r = Some (content inp)) = (length (old_content env) \<le> length (content inp)))"
  proof (intro allI impI)
    fix r assume "ProcessFile inp env process num sz r"
    from run_in_order [OF assms(1,2) this assms(3,4,5) p(1)]
    show "calls r = map (\<lambda>ct. val (process ct)) (emitted p) \<and>
       reported r = Some True \<and>
       disk r = Some (concat (calls r) @ drop (length (concat (calls r))) (old_content env)) \<and>
       ((\<forall>ct. process ct = ct) \<and> can_open inp \<and> read_fault inp = None \<longrightarrow>
          concat (calls r) = content inp \<and>
          disk r = Some (content inp @ drop (length (content inp)) (old_content env)) \<and>
          (disk r = Some (content inp)) = (length (old_content env) \<le> length (content inp)))" .
  qed
  from p(1) i ex al show ?thesis by blast
qed

theorem pipeline_restores_order_witness:
  "(0::int) < 4 \<and> (0::int) < 2 \<and>
   ProcessFile \<lparr>can_open = True, content = ''ABCDEFGHIJ'', read_fault = None\<rparr>
     \<lparr>open_fails = False, existing = None, write_fault = (\<lambda>i. None), close_fails = False\<rparr>
     (\<lambda>ct. ct) 2 4
     (writeResults
        [\<lparr>index = 1, val = ''EFGH''\<rparr>, \<lparr>index = 2, val = ''IJ''\<rparr>, \<lparr>index = 0, val = ''ABCD''\<rparr>]
        \<lparr>open_fails = False, existing = None, write_fault = (\<lambda>i. None), close_fails = False\<rparr>) \<and>
   calls (writeResults
        [\<lparr>index = 1, val = ''EFGH''\<rparr>, \<lparr>index = 2, val = ''IJ''\<rparr>, \<lparr>index = 0, val = ''ABCD''\<rparr>]
        \<lparr>open_fails = False, existing = None, write_fault = (\<lambda>i. None), close_fails = False\<rparr>) =
     [''ABCD'', ''EFGH'', ''IJ''] \<and>
   reported (writeResults
        [\<lparr>index = 1, val = ''EFGH''\<rparr>, \<lparr>index = 2, val = ''IJ''\<rparr>, \<lparr>index = 0, val = ''ABCD''\<rparr>]
        \<lparr>open_fails = False, existing = None, write_fault = (\<lambda>i. None), close_fails = False\<rparr>) =
     Some True \<and>
   disk (writeResults
        [\<lparr>index = 1, val = ''EFGH''\<rparr>, \<lparr>index = 2, val = ''IJ''\<rparr>, \<lparr>index = 0, val = ''ABCD''\<rparr>]
        \<lparr>open_fails = False, existing = None, write_fault = (\<lambda>i. None), close_fails = False\<rparr>) =
     Some ''ABCDEFGHIJ''"
proof -
  let ?inp = "\<lparr>can_open = True, content = ''ABCDEFGHIJ'', read_fault = None\<rparr>"
  let ?env = "\<lparr>open_fails = False, existing = None, write_fault = (\<lambda>i::nat. None :: nat option),
               close_fails = False\<rparr>"
  let ?rs = "[\<lparr>index = 1, val = ''EFGH''\<rparr>, \<lparr>index = 2, val = ''IJ''\<rparr>,
              \<lparr>index = 0, val = ''ABCD''\<rparr>]"
  let ?p = "\<lparr>emitted = [\<lparr>index = 0, val = ''ABCD''\<rparr>, \<lparr>index = 1, val = ''EFGH''\<rparr>,
                      \<lparr>index = 2, val = ''IJ''\<rparr>],
           closed = True, exit_status = EndOfFile\<rparr>"
  let ?r = "writeResults ?rs ?env"
  have "(0::int) < 4" "(0::int) < 2" "\<forall>ct. index ((\<lambda>ct. ct) ct) = index ct"
    "\<not> open_fails ?env" "\<forall>j. write_fault ?env j = None"
    by simp_all
  from pipeline_restores_order [OF this, of ?inp]
  obtain p where p: "readChunks ?inp 4 = Some p"
    and ex: "\<forall>results. mset results = mset (map (\<lambda>ct. ct) (emitted p)) \<longrightarrow>
       ProcessFile ?inp ?env (\<lambda>ct. ct) 2 4 (writeResults results ?env)"
    and al: "\<forall>r. ProcessFile ?inp ?env (\<lambda>ct. ct) 2 4 r \<longrightarrow>
       calls r = map (\<lambda>ct. val ct) (emitted p) \<and> reported r = Some True \<and>
       ((\<forall>ct::shard. ct = ct) \<and> can_open ?inp \<and> read_fault ?inp = None \<longrightarrow>
          disk r = Some (content ?inp @ drop (length (content ?inp)) (old_content ?env)))"
    by auto
  have pp: "p = ?p" using p run_ABCDEFGHIJ by simp
  have "mset ?rs = mset (map (\<lambda>ct. ct) (emitted p))" unfolding pp by simp
  with ex have run: "ProcessFile ?inp ?env (\<lambda>ct. ct) 2 4 ?r" by blast
  with al have f: "calls ?r = map (\<lambda>ct. val ct) (emitted p)" "reported ?r = Some True"
    "disk ?r = Some (content ?inp @ drop (length (content ?inp)) (old_content ?env))"
    by auto
  have "calls ?r = [''ABCD'', ''EFGH'', ''IJ'']" using f(1) unfolding pp by simp
  moreover have "disk ?r = Some ''ABCDEFGHIJ''" using f(3) by (simp add: old_content_def)
  ultimately show ?thesis using run f(2) by simp
qed

text \<open>
  Claim C1 as stated fails on the output file when an earlier, longer file is in the way:
  the ten bytes \<open>ABCDEFGHIJ\<close>, split into chunks of four and left unchanged by the
  identity transform, are written over a file of sixteen bytes \<open>X\<close>. The run returns,
  and the output file holds \<open>ABCDEFGHIJXXXXXX\<close>, not the bytes of the input.
\<close>

theorem pipeline_restores_order_counterexample:
  "ProcessFile \<lparr>can_open = True, content = ''ABCDEFGHIJ'', read_fault = None\<rparr>
     \<lparr>open_fails = False, existing = Some ''XXXXXXXXXXXXXXXX'', write_fault = (\<lambda>i. None),
      close_fails = False\<rparr>
     (\<lambda>ct. ct) 2 4
     (writeResults
        [\<lparr>index = 1, val = ''EFGH''\<rparr>, \<lparr>index = 2, val = ''IJ''\<rparr>, \<lparr>index = 0, val = ''ABCD''\<rparr>]
        \<lparr>open_fails = False, existing = Some ''XXXXXXXXXXXXXXXX'', write_fault = (\<lambda>i. None),
         close_fails = False\<rparr>) \<and>
   disk (writeResults
        [\<lparr>index = 1, val = ''EFGH''\<rparr>, \<lparr>index = 2, val = ''IJ''\<rparr>, \<lparr>index = 0, val = ''ABCD''\<rparr>]
        \<lparr>open_fails = False, existing = Some ''XXXXXXXXXXXXXXXX'', write_fault = (\<lambda>i. None),
         close_fails = False\<rparr>) = Some ''ABCDEFGHIJXXXXXX'' \<and>
   disk (writeResults
        [\<lparr>index = 1, val = ''EFGH''\<rparr>, \<lparr>index = 2, val = ''IJ''\<rparr>, \<lparr>index = 0, val = ''ABCD''\<rparr>]
        \<lparr>open_fails = False, existing = Some ''XXXXXXXXXXXXXXXX'', write_fault = (\<lambda>i. None),
         close_fails = False\<rparr>) \<noteq>
     Some (content \<lparr>can_open = True, content = ''ABCDEFGHIJ'', read_fault = None\<rparr>)"
proof -
  let ?inp = "\<lparr>can_open = True, content = ''ABCDEFGHIJ'', read_fault = None\<rparr>"
  let ?env = "\<lparr>open_fails = False, existing = Some ''XXXXXXXXXXXXXXXX'',
               write_fault = (\<lambda>i::nat. None :: nat option), close_fails = False\<rparr>"
  let ?rs = "[\<lparr>index = 1, val = ''EFGH''\<rparr>, \<lparr>index = 2, val = ''IJ''\<rparr>,
              \<lparr>index = 0, val = ''ABCD''\<rparr>]"
  let ?p = "\<lparr>emitted = [\<lparr>index = 0, val = ''ABCD''\<rparr>, \<lparr>index = 1, val = ''EFGH''\<rparr>,
                      \<lparr>index = 2, val = ''IJ''\<rparr>],
           closed = True, exit_status = EndOfFile\<rparr>"
  have run: "ProcessFile ?inp ?env (\<lambda>ct. ct) 2 4 (writeResults ?rs ?env)"
  proof (rule ProcessFile.workers [where p = ?p])
    show "(0::int) < 2" by simp
    show "readChunks ?inp 4 = Some ?p" by (rule run_ABCDEFGHIJ)
    show "exit_status ?p \<noteq> MakeSliceLenOutOfRange" by simp
    show "mset ?rs = mset (map (\<lambda>ct. ct) (emitted ?p))" by simp
  qed
  have d: "disk (writeResults ?rs ?env) = Some ''ABCDEFGHIJXXXXXX''"
    by (simp add: writeResults_def OpenFile_def collect_def lookup_def writeLoop.simps
        WriteString_def put_bytes_def)
  from run d show ?thesis by simp
qed

text \<open>
  Claim C6. When the input cannot be opened, the producer emits nothing and ends with its
  channel closed. Every run of the pipeline with \<open>num \<ge> 0\<close> then gives the collector no
  result; with an output path that can be opened and did not exist, the output file is
  created empty, no write is made, and the value received from \<^verbatim>\<open>done\<close> is \<open>true\<close>:
  the caller sees success although the producer failed.
\<close>
theorem missing_input_reports_success:
  assumes "\<not> can_open inp" "0 \<le> num" "\<not> open_fails env" "existing env = None"
  shows "readChunks inp sz = Some \<lparr>emitted = [], closed = True, exit_status = OpenFailed\<rparr> \<and>
         ProcessFile inp env process num sz (writeResults [] env) \<and>
         (\<forall>r. ProcessFile inp env process num sz r \<longrightarrow> r = writeResults [] env) \<and>
         calls (writeResults [] env) = [] \<and>
         disk (writeResults [] env) = Some [] \<and>
         reported (writeResults [] env) = Some True"
proof -
  let ?p = "\<lparr>emitted = [], closed = True, exit_status = OpenFailed\<rparr>"
  have rc: "readChunks inp sz = Some ?p" using assms(1) by (simp add: readChunks_def)
  have ex: "ProcessFile inp env process num sz (writeResults [] env)"
  proof (cases "num = 0")
    case True
    then show ?thesis using assms(1) by (intro ProcessFile.no_workers) simp_all
  next
    case False
    then have "0 < num" using assms(2) by simp
    then show ?thesis using rc
      by (rule ProcessFile.workers [where p = ?p and results = "[]"]) simp_all
  qed
  have un: "r = writeResults [] env" if "ProcessFile inp env process num sz r" for r
    using that
  proof cases
    case (workers p results)
    have "p = ?p" using workers(3) rc by simp
    then have "mset results = {#}" using workers(5) by simp
    then have "results = []" by simp
    then show ?thesis using workers(1) by simp
  next
    case no_workers
    then show ?thesis by simp
  qed
  have ok: "\<forall>j<length (collect []). write_fault env j = None" by (simp add: collect_def)
  have w: "writeResults [] env =
      \<lparr>signals = True # (if close_fails env then [False] else []), calls = [], disk = Some []\<rparr>"
    unfolding writeResults_clean [OF assms(3) ok]
    by (simp add: collect_def written_over_def old_content_def assms(4))
  have u: "\<forall>r. ProcessFile inp env process num sz r \<longrightarrow> r = writeResults [] env"
    using un by blast
  have "calls (writeResults [] env) = []" "disk (writeResults [] env) = Some []"
    "reported (writeResults [] env) = Some True"
    by (simp_all add: w)
  with rc ex u show ?thesis by (intro conjI)
qed

theorem missing_input_reports_success_witness:
  "\<not> can_open \<lparr>can_open = False, content = [], read_fault = None\<rparr> \<and> (0::int) \<le> 2 \<and>
   \<not> open_fails \<lparr>open_fails = False, existing = None, write_fault = (\<lambda>i. None),
                  close_fails = False\<rparr> \<and>
   readChunks \<lparr>can_open = False, content = [], read_fault = None\<rparr> 4 =
     Some \<lparr>emitted = [], closed = True, exit_status = OpenFailed\<rparr> \<and>
   ProcessFile \<lparr>can_open = False, content = [], read_fault = None\<rparr>
     \<lparr>open_fails = False, existing = None, write_fault = (\<lambda>i. None), close_fails = False\<rparr>
     (\<lambda>ct. ct) 2 4
     (writeResults []
        \<lparr>open_fails = False, existing = None, write_fault = (\<lambda>i. None), close_fails = False\<rparr>) \<and>
   disk (writeResults []
        \<lparr>open_fails = False, existing = None, write_fault = (\<lambda>i. None), close_fails = False\<rparr>) =
     Some [] \<and>
   reported (writeResults []
        \<lparr>open_fails = False, existing = None, write_fault = (\<lambda>i. None), close_fails = False\<rparr>) =
     Some True"
proof -
  let ?inp = "\<lparr>can_open = False, content = [], read_fault = None\<rparr>"
  let ?env = "\<lparr>open_fails = False, existing = None, write_fault = (\<lambda>i::nat. None :: nat option),
               close_fails = False\<rparr>"
  have "\<not> can_open ?inp" "(0::int) \<le> 2" "\<not> open_fails ?env" "existing ?env = None"
    by simp_all
  from missing_input_reports_success [OF this, of 4 "\<lambda>ct. ct"] show ?thesis by simp
qed

section \<open>Random access to records\<close>

text \<open>
  As long as the product \<^verbatim>\<open>index*size\<close> fits into an \<^verbatim>\<open>int64\<close>, \<^verbatim>\<open>ReadValue\<close> returns
  the bytes of record \<open>index\<close> when the file holds that record in full, and \<^verbatim>\<open>nil\<close> for a
  negative index or a record that the file does not hold in full.
\<close>

lemma sint_mult_exact:
  fixes a b :: "64 word"
  assumes "- (2 ^ 63) \<le> sint a * sint b" "sint a * sint b < 2 ^ 63"
  shows "sint (a * b) = sint a * sint b"
proof -
  have "sint (a * b) = signed_take_bit 63 (sint a * sint b)"
    by (simp add: sint_word_ariths)
  also have "\<dots> = sint a * sint b"
    using assms by (intro signed_take_bit_int_eq_self) simp_all
  finally show ?thesis .
qed

lemma ReadAt_nat:
  "ReadAt f b (int k) =
     (length (take (length b) (drop k (readable f))),
      take (length b) (drop k (readable f)) @
        drop (length (take (length b) (drop k (readable f)))) b)"
  by (simp add: ReadAt_def Let_def)

lemma ReadValue_in_range:
  assumes "can_open f" "read_fault f = None"
    and "0 < sint sz" "0 \<le> sint idx" "sint idx < int n"
    and "length (content f) = n * nat (sint sz)" "length (content f) < 2 ^ 63"
  shows "ReadValue f idx sz =
     Inr (Some (take (nat (sint sz)) (drop (nat (sint idx) * nat (sint sz)) (content f))))"
proof -
  define i where "i = nat (sint idx)"
  define c where "c = nat (sint sz)"
  have si: "sint idx = int i" and sc: "sint sz = int c" and c: "0 < c" and i: "i < n"
    using assms(3,4,5) by (simp_all add: i_def c_def)
  have "Suc i * c \<le> n * c" using i by (intro mult_le_mono1) simp
  then have fits: "i * c + c \<le> length (content f)" using assms(6) by (simp add: c_def)
  have prod: "sint idx * sint sz = int (i * c)" by (simp add: si sc)
  have "int (i * c) < 2 ^ 63"
  proof -
    have "i * c < 2 ^ 63" using fits assms(7) by linarith
    then show ?thesis by (metis of_nat_less_iff of_nat_numeral of_nat_power)
  qed
  moreover have "- (2 ^ 63) \<le> int (i * c)"
    by (rule order_trans [of _ 0]) simp_all
  ultimately have off: "sint (idx * sz) = int (i * c)"
    using sint_mult_exact [of idx sz] unfolding prod by blast
  have got: "length (take c (drop (i * c) (content f))) = c" using fits by simp
  have rd: "readable f = content f" by (simp add: readable_def assms(2))
  have "ReadAt f (replicate c (CHR 0x00)) (int (i * c)) =
        (c, take c (drop (i * c) (content f)))"
    unfolding ReadAt_nat rd length_replicate got by simp
  then show ?thesis
    using assms(1) c by (simp add: ReadValue_def off sc c_def [symmetric] i_def [symmetric])
qed

lemma ReadValue_out_of_range:
  assumes "0 < sint sz"
    and "- (2 ^ 63) \<le> sint idx * sint sz" "sint idx * sint sz < 2 ^ 63"
    and "sint idx < 0 \<or> int (length (content f)) < (sint idx + 1) * sint sz"
  shows "ReadValue f idx sz = Inr None"
proof (cases "can_open f")
  case False
  then show ?thesis by (simp add: ReadValue_def)
next
  case True
  define c where "c = nat (sint sz)"
  have sc: "sint sz = int c" and c: "0 < c" using assms(1) by (simp_all add: c_def)
  have off: "sint (idx * sz) = sint idx * sint sz"
    using assms(2,3) by (rule sint_mult_exact)
  have short: "fst (ReadAt f (replicate c (CHR 0x00)) (sint idx * sint sz)) < c"
  proof (cases "sint idx < 0")
    case True
    then have "sint idx * sint sz < 0" using assms(1) by (simp add: mult_neg_pos)
    then show ?thesis using c by (simp add: ReadAt_def)
  next
    case False
    then have nn: "0 \<le> sint idx" by simp
    define i where "i = nat (sint idx)"
    have si: "sint idx = int i" using nn by (simp add: i_def)
    have "int (length (content f)) < (int i + 1) * int c"
      using assms(4) False by (simp add: si sc)
    then have "int (length (content f)) < int (i * c + c)" by (simp add: algebra_simps)
    then have lt: "length (content f) < i * c + c" by linarith
    have "length (readable f) \<le> length (content f)"
      by (simp add: readable_def split: option.split)
    then have "length (readable f) - i * c < c" using lt c by linarith
    then have "fst (ReadAt f (replicate c (CHR 0x00)) (int (i * c))) < c"
      unfolding ReadAt_nat by simp
    then show ?thesis by (simp add: si sc)
  qed
  obtain m buffer where ra: "ReadAt f (replicate c (CHR 0x00)) (sint idx * sint sz) = (m, buffer)"
    by (cases "ReadAt f (replicate c (CHR 0x00)) (sint idx * sint sz)")
  then have "m < c" using short by simp
  then show ?thesis
    using True c ra
    by (simp add: ReadValue_def off sc c_def [symmetric])
qed

text \<open>
  Claim C8 at an index whose offset wraps around. The file holds two records of four
  bytes. For the index \<open>2 ^ 62\<close>, which is not below the number of records, the product
  \<^verbatim>\<open>index*size\<close> is \<open>2 ^ 64\<close>, that is 0 as an \<^verbatim>\<open>int64\<close>: \<^verbatim>\<open>ReadValue\<close> reads at
  offset 0 and returns record 0 instead of failing. The negative index \<open>- (2 ^ 62)\<close> does
  the same.
\<close>
theorem ReadValue_offset_wraps:
  "ReadValue \<lparr>can_open = True, content = ''ABCDEFGH'', read_fault = None\<rparr>
     4611686018427387904 4 = Inr (Some ''ABCD'') \<and>
   ReadValue \<lparr>can_open = True, content = ''ABCDEFGH'', read_fault = None\<rparr>
     (- 4611686018427387904) 4 = Inr (Some ''ABCD'') \<and>
   sint (4611686018427387904 :: 64 word) = 2 ^ 62 \<and>
   sint (- 4611686018427387904 :: 64 word) = - (2 ^ 62)"
  by (simp add: ReadValue_def ReadAt_def readable_def)

end
